theory Spec2Isabelle
  imports Complex_Main "HOL-Library.Word"
begin

section \<open>Linear images\<close>

text \<open>
  The operations of \<^verbatim>\<open>libs/image/src/ImageOps.cpp\<close> on dense row-major pixel
  buffers. Dimensions are \<^verbatim>\<open>uint32_t\<close>, so they are 32-bit words and every
  product or sum the source computes in that type wraps. Pointers into a
  buffer are offsets (natural numbers) into the list of its floats. A read or
  write outside the storage is undefined behaviour in C++; the model makes it
  the outcome \<open>OutOfBounds\<close>. A failed \<^verbatim>\<open>ASSERT_PRECONDITION\<close> is the
  outcome \<open>PreconditionPanic\<close> with the message of the source.

  Samples are \<^verbatim>\<open>float\<close> in the source: here the real number a finite
  binary32 value stands for. The copying operations never compute with
  them; \<open>compare\<close> and \<open>vectorsToColors\<close> do, and every sum, difference and
  product there is rounded to binary32 as the hardware does.
\<close>

type_synonym uint32_t = "32 word"
type_synonym float = real

subsection \<open>binary32 arithmetic\<close>

text \<open>
  A \<^verbatim>\<open>float\<close> operation returns the exact result rounded to the nearest
  binary32 value, ties to the even significand. In units of \<open>2 ^ -149\<close> (the
  smallest subnormal) a binary32 value is an integer below \<open>2 ^ 24\<close> shifted
  left by \<open>s \<le> 253\<close> places; \<open>search_shift\<close> finds the least shift under which
  the magnitude fits, and the quotient is rounded to an integer. NaN and the
  infinities are outside the model: a result of magnitude \<open>2 ^ 128\<close> or more
  stands for an overflow to infinity, beyond every finite value.
\<close>

definition round_even :: "real \<Rightarrow> int" where
  "round_even y =
     (let f = \<lfloor>y\<rfloor> in
      if y - of_int f < 1 / 2 then f
      else if 1 / 2 < y - of_int f then f + 1
      else if even f then f else f + 1)"

fun search_shift :: "nat \<Rightarrow> nat \<Rightarrow> real \<Rightarrow> nat" where
  "search_shift 0 s X = s"
| "search_shift (Suc fuel) s X =
     (if X < 2 ^ (24 + s) then s else search_shift fuel (Suc s) X)"

definition binary32 :: "real \<Rightarrow> float" where
  "binary32 x =
     (let X = \<bar>x\<bar> * 2 ^ 149;
          s = search_shift 253 0 X
      in sgn x * of_int (round_even (X / 2 ^ s)) * 2 ^ s / 2 ^ 149)"

text \<open>
  Modelled from the spec: \<^verbatim>\<open>ASSERT_PRECONDITION\<close> is a macro of
  \<^verbatim>\<open>utils/Panic.h\<close>, which is not part of the sources at hand. By the spec a
  violated precondition is reported to the caller at once and the operation
  produces no buffer; the outcome carries the message given to the macro.
\<close>

datatype error = PreconditionPanic string | OutOfBounds

record LinearImage =
  getWidth :: uint32_t
  getHeight :: uint32_t
  getChannels :: uint32_t
  getData :: "float list"

text \<open>
  Modelled from the spec: the class \<^verbatim>\<open>LinearImage\<close> is declared in
  \<^verbatim>\<open>image/LinearImage.h\<close>, which is not part of the sources at hand. Its
  constructor yields a buffer that owns \<open>width \<times> height \<times> channels\<close> floats, here
  zero-filled; \<open>getData\<close> is the accessor \<^verbatim>\<open>get()\<close>.
\<close>

definition LinearImage_new :: "uint32_t \<Rightarrow> uint32_t \<Rightarrow> uint32_t \<Rightarrow> LinearImage" where
  "LinearImage_new width height channels =
     \<lparr>getWidth = width, getHeight = height, getChannels = channels,
      getData = replicate (unat width * unat height * unat channels) 0\<rparr>"

text \<open>
  Modelled from the spec: \<^verbatim>\<open>get(column, row)\<close>, also declared in the missing
  header, points at the first channel of a pixel; by the layout invariant of
  the spec its offset is \<open>(row * width + column) * channels\<close>, computed in
  \<^verbatim>\<open>uint32_t\<close>.
\<close>

definition get_at :: "LinearImage \<Rightarrow> uint32_t \<Rightarrow> uint32_t \<Rightarrow> nat" where
  "get_at img column row = unat ((column + row * getWidth img) * getChannels img)"

text \<open>The sample of channel \<open>k\<close> at a pixel, by the layout invariant.\<close>

definition pixel :: "LinearImage \<Rightarrow> nat \<Rightarrow> nat \<Rightarrow> nat \<Rightarrow> float" where
  "pixel img row col k =
     getData img ! ((row * unat (getWidth img) + col) * unat (getChannels img) + k)"

text \<open>A buffer as the constructor makes it, with a 32-bit number of floats.\<close>

definition well_formed :: "LinearImage \<Rightarrow> bool" where
  "well_formed img \<longleftrightarrow>
     length (getData img) = unat (getWidth img) * unat (getHeight img) * unat (getChannels img)
     \<and> unat (getWidth img) * unat (getHeight img) * unat (getChannels img) < 2 ^ 32"

subsection \<open>Loops and bulk copies\<close>

text \<open>A counted \<^verbatim>\<open>for\<close> loop whose body may fail: it stops at the first failure.\<close>

fun for_each :: "'i list \<Rightarrow> ('i \<Rightarrow> 's \<Rightarrow> error + 's) \<Rightarrow> 's \<Rightarrow> error + 's" where
  "for_each [] body s = Inr s"
| "for_each (i # rest) body s =
     (case body i s of Inl e \<Rightarrow> Inl e | Inr s' \<Rightarrow> for_each rest body s')"

text \<open>\<^verbatim>\<open>memcpy(target + dst, source + src, n * sizeof(float))\<close>.\<close>

definition memcpy :: "float list \<Rightarrow> nat \<Rightarrow> float list \<Rightarrow> nat \<Rightarrow> nat \<Rightarrow> error + float list" where
  "memcpy target dst source src n =
     (if dst + n \<le> length target \<and> src + n \<le> length source
      then Inr (take dst target @ take n (drop src source) @ drop (dst + n) target)
      else Inl OutOfBounds)"

subsection \<open>vectorsToColors\<close>




subsection \<open>hstack\<close>

text \<open>The first loop: the size of the result, with 0 meaning "not yet set".\<close>

fun hstack_size :: "LinearImage list \<Rightarrow> uint32_t \<times> uint32_t \<times> uint32_t
    \<Rightarrow> error + (uint32_t \<times> uint32_t \<times> uint32_t)" where
  "hstack_size [] sz = Inr sz"
| "hstack_size (img # rest) (width, height, nchannels) =
     (let width = width + getWidth img in
      if height \<noteq> 0 \<and> height \<noteq> getHeight img
      then Inl (PreconditionPanic ''Inconsistent heights.'')
      else
        let height = (if height = 0 then getHeight img else height) in
        if nchannels \<noteq> 0 \<and> nchannels \<noteq> getChannels img
        then Inl (PreconditionPanic ''Inconsistent channels.'')
        else
          let nchannels = (if nchannels = 0 then getChannels img else nchannels)
          in hstack_size rest (width, height, nchannels))"

text \<open>The inner loop of the copy: one row of every source image, at \<open>dst\<close>.\<close>

fun hstack_row :: "LinearImage list \<Rightarrow> uint32_t \<Rightarrow> uint32_t \<Rightarrow> nat \<times> float list
    \<Rightarrow> error + (nat \<times> float list)" where
  "hstack_row [] row nchannels (dst, buf) = Inr (dst, buf)"
| "hstack_row (img # rest) row nchannels (dst, buf) =
     (let swidth = getWidth img;
          src = unat (row * swidth * nchannels)
      in case memcpy buf dst (getData img) src (unat (swidth * nchannels)) of
           Inl e \<Rightarrow> Inl e
         | Inr buf' \<Rightarrow> hstack_row rest row nchannels (dst + unat (swidth * nchannels), buf'))"

definition hstack :: "LinearImage list \<Rightarrow> error + LinearImage" where
  "hstack images =
     (if \<not> 0 < length images
      then Inl (PreconditionPanic ''Must supply one or more images for stacking.'')
      else case hstack_size images (0, 0, 0) of
        Inl e \<Rightarrow> Inl e
      | Inr (width, height, nchannels) \<Rightarrow>
          let result = LinearImage_new width height nchannels
          in case for_each [0..<unat height]
                    (\<lambda>row. hstack_row images (of_nat row) nchannels)
                    (0, getData result) of
               Inl e \<Rightarrow> Inl e
             | Inr (dst, buf) \<Rightarrow> Inr (result\<lparr>getData := buf\<rparr>))"

subsection \<open>transpose\<close>

text \<open>The inner loop: \<^verbatim>\<open>dst[c] = src[c]\<close> for every channel \<open>c\<close>.\<close>

definition copy_channels :: "float list \<Rightarrow> nat \<Rightarrow> nat \<Rightarrow> uint32_t \<Rightarrow> float list
    \<Rightarrow> error + float list" where
  "copy_channels source src dst channels target =
     for_each [0..<unat channels]
       (\<lambda>c target.
          if src + c < length source \<and> dst + c < length target
          then Inr (target[dst + c := source ! (src + c)])
          else Inl OutOfBounds)
       target"

text \<open>The body of the outer loop, for the pixel of index \<open>n\<close>.\<close>

definition transpose_pixel :: "uint32_t \<Rightarrow> uint32_t \<Rightarrow> uint32_t \<Rightarrow> float list \<Rightarrow> nat
    \<Rightarrow> float list \<Rightarrow> error + float list" where
  "transpose_pixel width height channels source n target =
     (let i = (of_nat n :: uint32_t) div width;
          j = (of_nat n :: uint32_t) mod width;
          src = unat (channels * of_nat n);
          dst = unat (channels * (height * j + i))
      in copy_channels source src dst channels target)"

definition transpose_image :: "LinearImage \<Rightarrow> error + LinearImage" where
  "transpose_image img =
     (let width = getWidth img; height = getHeight img; channels = getChannels img;
          result = LinearImage_new height width channels;
          source = getData img
      in case for_each [0..<unat (width * height)]
                (transpose_pixel width height channels source)
                (getData result) of
           Inl e \<Rightarrow> Inl e
         | Inr target \<Rightarrow> Inr (result\<lparr>getData := target\<rparr>))"

subsection \<open>vstack\<close>

fun vstack_flipped :: "LinearImage list \<Rightarrow> error + LinearImage list" where
  "vstack_flipped [] = Inr []"
| "vstack_flipped (img # rest) =
     (case transpose_image img of
        Inl e \<Rightarrow> Inl e
      | Inr t \<Rightarrow> (case vstack_flipped rest of Inl e \<Rightarrow> Inl e | Inr ts \<Rightarrow> Inr (t # ts)))"

definition vstack :: "LinearImage list \<Rightarrow> error + LinearImage" where
  "vstack images =
     (if \<not> 0 < length images
      then Inl (PreconditionPanic ''Must supply one or more images for stacking.'')
      else case vstack_flipped images of
        Inl e \<Rightarrow> Inl e
      | Inr flipped \<Rightarrow>
          (case hstack flipped of Inl e \<Rightarrow> Inl e | Inr result \<Rightarrow> transpose_image result))"

subsection \<open>combineChannels\<close>

text \<open>The validation loop over the planes.\<close>

fun combine_check :: "LinearImage list \<Rightarrow> uint32_t \<Rightarrow> uint32_t \<Rightarrow> error + unit" where
  "combine_check [] width height = Inr ()"
| "combine_check (plane # rest) width height =
     (if getWidth plane \<noteq> width
      then Inl (PreconditionPanic ''Planes must all have same width.'')
      else if getHeight plane \<noteq> height
      then Inl (PreconditionPanic ''Planes must all have same height.'')
      else if getChannels plane \<noteq> 1
      then Inl (PreconditionPanic ''Planes must be single channel.'')
      else combine_check rest width height)"

text \<open>The inner \<^verbatim>\<open>for\<close> loop: sample \<open>sindex\<close> of every plane, in order.\<close>

fun combine_planes :: "LinearImage list \<Rightarrow> uint32_t \<Rightarrow> uint32_t \<times> float list
    \<Rightarrow> error + (uint32_t \<times> float list)" where
  "combine_planes [] sindex (dindex, dst) = Inr (dindex, dst)"
| "combine_planes (plane # rest) sindex (dindex, dst) =
     (if unat sindex < length (getData plane) \<and> unat dindex < length dst
      then combine_planes rest sindex (dindex + 1, dst[unat dindex := getData plane ! unat sindex])
      else Inl OutOfBounds)"

text \<open>
  The \<^verbatim>\<open>while\<close> loop. Its bound \<^verbatim>\<open>width * height * count\<close> is a
  \<^verbatim>\<open>size_t\<close> and its counter a \<^verbatim>\<open>uint32_t\<close>, so nothing in the loop
  itself makes it end: not returning is the value \<open>None\<close>.
\<close>

partial_function (option) combine_loop ::
    "LinearImage list \<Rightarrow> nat \<Rightarrow> uint32_t \<Rightarrow> uint32_t \<Rightarrow> float list \<Rightarrow> (error + float list) option" where
  "combine_loop img bound sindex dindex dst =
     (if unat dindex < bound
      then (case combine_planes img sindex (dindex, dst) of
              Inl e \<Rightarrow> Some (Inl e)
            | Inr (dindex', dst') \<Rightarrow> combine_loop img bound (sindex + 1) dindex' dst')
      else Some (Inr dst))"

definition combineChannels :: "LinearImage list \<Rightarrow> (error + LinearImage) option" where
  "combineChannels img =
     (if \<not> 0 < length img
      then Some (Inl (PreconditionPanic ''Must supply one or more image planes for combining.''))
      else
        let width = getWidth (img ! 0); height = getHeight (img ! 0)
        in case combine_check img width height of
             Inl e \<Rightarrow> Some (Inl e)
           | Inr _ \<Rightarrow>
               let result = LinearImage_new width height (of_nat (length img))
               in case combine_loop img (unat (width * height) * length img) 0 0 (getData result) of
                    None \<Rightarrow> None
                  | Some (Inl e) \<Rightarrow> Some (Inl e)
                  | Some (Inr dst) \<Rightarrow> Some (Inr (result\<lparr>getData := dst\<rparr>)))"

subsection \<open>cropRegion\<close>

text \<open>
  The body of the loop: one row is copied, then both pointers move on by a
  row of their buffer. The state is the two pointers and the result's storage.
\<close>

definition crop_row :: "LinearImage \<Rightarrow> uint32_t \<Rightarrow> uint32_t \<Rightarrow> nat
    \<Rightarrow> nat \<times> nat \<times> float list \<Rightarrow> error + (nat \<times> nat \<times> float list)" where
  "crop_row img width channels row st =
     (case st of (target, source, buf) \<Rightarrow>
        (case memcpy buf target (getData img) source (unat (width * channels)) of
           Inl e \<Rightarrow> Inl e
         | Inr buf' \<Rightarrow> Inr (target + unat (width * channels),
                           source + unat (getWidth img * channels), buf')))"

definition cropRegion :: "LinearImage \<Rightarrow> uint32_t \<Rightarrow> uint32_t \<Rightarrow> uint32_t \<Rightarrow> uint32_t
    \<Rightarrow> error + LinearImage" where
  "cropRegion img left top' right bottom =
     (let width = right - left;
          height = bottom - top';
          channels = getChannels img;
          result = LinearImage_new width height channels
      in case for_each [0..<unat height] (crop_row img width channels)
                (0, get_at img left top', getData result) of
           Inl e \<Rightarrow> Inl e
         | Inr (target, source, buf) \<Rightarrow> Inr (result\<lparr>getData := buf\<rparr>))"

subsection \<open>compare\<close>

text \<open>
  \<^verbatim>\<open>std::lexicographical_compare\<close> of the C++ standard library, on two ranges
  and a comparison \<open>cmp\<close> that it takes for a strict ordering.
\<close>

fun lexicographical_compare :: "('a \<Rightarrow> 'a \<Rightarrow> bool) \<Rightarrow> 'a list \<Rightarrow> 'a list \<Rightarrow> bool" where
  "lexicographical_compare cmp (x # xs) (y # ys) =
     (if cmp x y then True
      else if cmp y x then False
      else lexicographical_compare cmp xs ys)"
| "lexicographical_compare cmp [] ys = (ys \<noteq> [])"
| "lexicographical_compare cmp xs [] = False"

text \<open>
  The lambda handed to it, \<^verbatim>\<open>x >= y - epsilon && x <= y + epsilon\<close>, with
  the difference and the sum rounded.
\<close>

definition within_epsilon :: "float \<Rightarrow> float \<Rightarrow> float \<Rightarrow> bool" where
  "within_epsilon epsilon x y \<longleftrightarrow>
     x \<ge> binary32 (y - epsilon) \<and> x \<le> binary32 (y + epsilon)"

definition compare :: "LinearImage \<Rightarrow> LinearImage \<Rightarrow> float \<Rightarrow> error + int" where
  "compare a b epsilon =
     (let w = getWidth a; h = getHeight a; c = getChannels a in
      if getWidth b \<noteq> w \<or> getHeight b \<noteq> h \<or> getChannels b \<noteq> c then Inr (- 1)
      else if unat (w * h * c) \<le> length (getData a) \<and> unat (w * h * c) \<le> length (getData b)
      then Inr (if lexicographical_compare (within_epsilon epsilon)
                     (take (unat (w * h * c)) (getData a))
                     (take (unat (w * h * c)) (getData b))
                then 1 else 0)
      else Inl OutOfBounds)"

subsection \<open>Rows and columns of a stack\<close>

text \<open>The samples of row \<open>r\<close> of a buffer.\<close>

definition row_slice :: "nat \<Rightarrow> LinearImage \<Rightarrow> float list" where
  "row_slice r img =
     take (unat (getWidth img) * unat (getChannels img))
       (drop (r * unat (getWidth img) * unat (getChannels img)) (getData img))"

text \<open>One row of the result: the rows \<open>r\<close> of the inputs, side by side.\<close>

definition stacked_row :: "LinearImage list \<Rightarrow> nat \<Rightarrow> float list" where
  "stacked_row imgs r = concat (map (row_slice r) imgs)"

text \<open>The number of floats in a row of the inputs side by side.\<close>

definition row_length :: "LinearImage list \<Rightarrow> uint32_t \<Rightarrow> nat" where
  "row_length imgs c = sum_list (map (\<lambda>img. unat (getWidth img) * unat c) imgs)"

text \<open>The column at which input \<open>k\<close> starts: the widths before it, added up.\<close>

definition column_offset :: "LinearImage list \<Rightarrow> nat \<Rightarrow> nat" where
  "column_offset imgs k = sum_list (map (\<lambda>img. unat (getWidth img)) (take k imgs))"

text \<open>The row at which input \<open>k\<close> starts: the heights before it, added up.\<close>

definition row_offset :: "LinearImage list \<Rightarrow> nat \<Rightarrow> nat" where
  "row_offset imgs k = sum_list (map (\<lambda>img. unat (getHeight img)) (take k imgs))"


declare combine_loop.simps [code]

section \<open>Properties\<close>

subsection \<open>binary32 rounding\<close>








lemma search_shift_eq:
  assumes "X < 2 ^ (24 + s)" and "s = s0 \<or> 2 ^ (23 + s) \<le> X"
    and "s0 \<le> s" and "s \<le> s0 + fuel"
  shows "search_shift fuel s0 X = s"
  using assms(2-4)
proof (induction fuel arbitrary: s0)
  case 0
  then show ?case by simp
next
  case (Suc fuel)
  show ?case
  proof (cases "X < 2 ^ (24 + s0)")
    case True
    have "s = s0"
    proof (rule ccontr)
      assume "s \<noteq> s0"
      then have "(2 :: real) ^ (23 + s) \<le> X" using Suc.prems(1) by simp
      then have "(2 :: real) ^ (23 + s) < 2 ^ (24 + s0)" using True by linarith
      then have "23 + s < 24 + s0" by simp
      then show False using Suc.prems(2) \<open>s \<noteq> s0\<close> by simp
    qed
    then show ?thesis using True by simp
  next
    case False
    then have ne: "s \<noteq> s0" using assms(1) by auto
    then have "s = Suc s0 \<or> 2 ^ (23 + s) \<le> X" using Suc.prems(1) by simp
    moreover have "Suc s0 \<le> s" using ne Suc.prems(2) by simp
    moreover have "s \<le> Suc s0 + fuel" using Suc.prems(3) by simp
    ultimately have "search_shift fuel (Suc s0) X = s" by (rule Suc.IH)
    then show ?thesis using False by simp
  qed
qed

lemma binary32_eval:
  assumes "0 < x" and "x * 2 ^ 149 < 2 ^ (24 + s)"
    and "s = 0 \<or> 2 ^ (23 + s) \<le> x * 2 ^ 149" and "s \<le> 253"
  shows "binary32 x = of_int (round_even (x * 2 ^ 149 / 2 ^ s)) * 2 ^ s / 2 ^ 149"
proof -
  have "search_shift 253 0 (x * 2 ^ 149) = s"
    using assms(2-4) by (intro search_shift_eq) simp_all
  then show ?thesis using assms(1) by (simp add: binary32_def Let_def)
qed

lemma binary32_minus: "binary32 (- x) = - binary32 x"
  by (simp add: binary32_def Let_def sgn_minus)

lemma binary32_0: "binary32 0 = 0" by (simp add: binary32_def)




lemma binary32_5: "binary32 5 = 5"
  using binary32_eval [of 5 128] by (simp add: round_even_def)

lemma binary32_7: "binary32 7 = 7"
  using binary32_eval [of 7 128] by (simp add: round_even_def)


subsection \<open>Loops\<close>

lemma for_each_append:
  "for_each (xs @ ys) body s =
     (case for_each xs body s of Inl e \<Rightarrow> Inl e | Inr s' \<Rightarrow> for_each ys body s')"
  by (induction xs arbitrary: s) (auto split: sum.splits)

lemma for_each_error:
  assumes "\<And>i s e. body i s = Inl e \<Longrightarrow> P e"
    and "for_each xs body s = Inl e"
  shows "P e"
  using assms(2)
proof (induction xs arbitrary: s)
  case Nil
  then show ?case by simp
next
  case (Cons i rest)
  then show ?case using assms(1) by (auto split: sum.splits)
qed

subsection \<open>compare\<close>

text \<open>
  C1. The claim: \<open>compare\<close> returns the equal result exactly when every pair
  of components is within epsilon, and \<open>compare img img epsilon\<close> is equal for
  every buffer. The code returns \<open>-1\<close> for a shape mismatch and otherwise the
  truth value of \<^verbatim>\<open>std::lexicographical_compare\<close>, to which the tolerance
  test is given as the ordering. A one-pixel buffer compared with itself
  yields 1, the same value as two buffers whose second components differ by
  5; the value 0 is what two buffers yield that differ in every component.
\<close>

theorem compare_identical_is_one:
  "compare \<lparr>getWidth = 1, getHeight = 1, getChannels = 1, getData = [0]\<rparr>
           \<lparr>getWidth = 1, getHeight = 1, getChannels = 1, getData = [0]\<rparr> 0 = Inr 1
   \<and> compare \<lparr>getWidth = 2, getHeight = 1, getChannels = 1, getData = [0, 0]\<rparr>
             \<lparr>getWidth = 2, getHeight = 1, getChannels = 1, getData = [0, 5]\<rparr> 0 = Inr 1
   \<and> compare \<lparr>getWidth = 2, getHeight = 1, getChannels = 1, getData = [0, 0]\<rparr>
             \<lparr>getWidth = 2, getHeight = 1, getChannels = 1, getData = [7, 5]\<rparr> 0 = Inr 0"
  by (simp add: compare_def within_epsilon_def binary32_0 binary32_5 binary32_7)

theorem compare_identical_is_one_witness:
  "compare \<lparr>getWidth = 1, getHeight = 1, getChannels = 1, getData = [0]\<rparr>
           \<lparr>getWidth = 1, getHeight = 1, getChannels = 1, getData = [0]\<rparr> 0 \<noteq> Inr 0
   \<and> compare \<lparr>getWidth = 1, getHeight = 1, getChannels = 1, getData = [0]\<rparr>
             \<lparr>getWidth = 1, getHeight = 1, getChannels = 1, getData = [0]\<rparr> 0
       = compare \<lparr>getWidth = 2, getHeight = 1, getChannels = 1, getData = [0, 0]\<rparr>
                 \<lparr>getWidth = 2, getHeight = 1, getChannels = 1, getData = [0, 5]\<rparr> 0"
  using compare_identical_is_one by simp

subsection \<open>cropRegion\<close>

lemma cropRegion_never_panics:
  "cropRegion img left top' right bottom \<noteq> Inl (PreconditionPanic msg)"
proof
  assume a: "cropRegion img left top' right bottom = Inl (PreconditionPanic msg)"
  let ?body = "crop_row img (right - left) (getChannels img)"
  have body: "\<And>i s e. ?body i s = Inl e \<Longrightarrow> e = OutOfBounds"
    by (auto simp: crop_row_def memcpy_def split: prod.splits sum.splits if_splits)
  from a have "for_each [0..<unat (bottom - top')] ?body
      (0, get_at img left top',
       getData (LinearImage_new (right - left) (bottom - top') (getChannels img)))
        = Inl (PreconditionPanic msg)"
    by (auto simp: cropRegion_def Let_def split: sum.splits)
  from for_each_error [where P = "\<lambda>e. e = OutOfBounds", OF body this]
  show False by simp
qed

text \<open>
  C10. \<open>cropRegion\<close> validates nothing: it never stops with a precondition
  failure, and the buffer it returns records the width \<open>right - left\<close> and the
  height \<open>bottom - top\<close> of 32-bit unsigned subtraction, that is the
  differences modulo \<open>2 ^ 32\<close>, also when \<open>right \<le> left\<close> or \<open>bottom \<le> top\<close>.
\<close>

theorem cropRegion_dimensions_wrap:
  "cropRegion img left top' right bottom \<noteq> Inl (PreconditionPanic msg) \<and>
   (cropRegion img left top' right bottom = Inr result \<longrightarrow>
      getWidth result = right - left \<and> getHeight result = bottom - top' \<and>
      uint (getWidth result) = (uint right - uint left) mod 2 ^ 32 \<and>
      uint (getHeight result) = (uint bottom - uint top') mod 2 ^ 32)"
proof -
  have "getWidth result = right - left \<and> getHeight result = bottom - top'"
    if "cropRegion img left top' right bottom = Inr result"
    using that
    by (auto simp: cropRegion_def Let_def LinearImage_new_def split: sum.splits prod.splits)
  moreover have "uint (right - left) = (uint right - uint left) mod 2 ^ 32"
    "uint (bottom - top') = (uint bottom - uint top') mod 2 ^ 32"
    by (simp_all add: uint_word_ariths)
  ultimately show ?thesis
    using cropRegion_never_panics by auto
qed

theorem cropRegion_dimensions_wrap_witness:
  "cropRegion \<lparr>getWidth = 3, getHeight = 3, getChannels = 1,
                getData = [0, 1, 2, 3, 4, 5, 6, 7, 8]\<rparr> 1 1 0 1
     = Inr \<lparr>getWidth = 4294967295, getHeight = 0, getChannels = 1, getData = []\<rparr>
   \<and> uint (getWidth \<lparr>getWidth = 4294967295, getHeight = 0, getChannels = 1, getData = []\<rparr>)
       = (uint (0 :: uint32_t) - uint (1 :: uint32_t)) mod 2 ^ 32"
  using cropRegion_dimensions_wrap
    [of "\<lparr>getWidth = 3, getHeight = 3, getChannels = 1,
          getData = [0, 1, 2, 3, 4, 5, 6, 7, 8]\<rparr>" 1 1 0 1 "''''"
        "\<lparr>getWidth = 4294967295, getHeight = 0, getChannels = 1, getData = []\<rparr>"]
  by (simp add: cropRegion_def LinearImage_new_def get_at_def crop_row_def)

subsection \<open>Copying\<close>

lemma copy_loop_nth:
  assumes "src + n \<le> length source" "dst + n \<le> length target"
  shows "\<exists>R. for_each [0..<n]
            (\<lambda>c target.
               if src + c < length source \<and> dst + c < length target
               then Inr (target[dst + c := source ! (src + c)])
               else Inl OutOfBounds) target = Inr R
          \<and> length R = length target
          \<and> (\<forall>t < length target. R ! t =
                (if dst \<le> t \<and> t < dst + n then source ! (src + (t - dst)) else target ! t))"
  using assms
proof (induction n)
  case 0
  then show ?case by auto
next
  case (Suc n)
  then obtain R where R: "for_each [0..<n]
            (\<lambda>c target.
               if src + c < length source \<and> dst + c < length target
               then Inr (target[dst + c := source ! (src + c)])
               else Inl OutOfBounds) target = Inr R"
     "length R = length target"
     "\<forall>t < length target. R ! t =
                (if dst \<le> t \<and> t < dst + n then source ! (src + (t - dst)) else target ! t)"
    by auto
  have "\<forall>t < length target. (R[dst + n := source ! (src + n)]) ! t =
                (if dst \<le> t \<and> t < dst + Suc n then source ! (src + (t - dst)) else target ! t)"
    using R(2,3) by (auto simp: nth_list_update less_Suc_eq)
  then show ?case
    using R Suc.prems by (simp add: for_each_append)
qed

lemma copy_channels_nth:
  assumes "src + unat channels \<le> length source" "dst + unat channels \<le> length target"
  shows "\<exists>R. copy_channels source src dst channels target = Inr R
          \<and> length R = length target
          \<and> (\<forall>t < length target. R ! t =
                (if dst \<le> t \<and> t < dst + unat channels then source ! (src + (t - dst))
                 else target ! t))"
  unfolding copy_channels_def using copy_loop_nth [OF assms] .


subsection \<open>Index arithmetic\<close>

lemma block_index:
  fixes C :: nat
  assumes "k < C" "k' < C" "C * p + k = C * q + k'"
  shows "p = q \<and> k = k'"
proof -
  have "(C * p + k) div C = p" "(C * q + k') div C = q"
    using assms(1,2) by simp_all
  then have "p = q" using assms(3) by simp
  then show ?thesis using assms(3) by simp
qed

lemma transposed_index_bound:
  fixes W H :: nat
  assumes "n < W * H"
  shows "H * (n mod W) + n div W < W * H"
proof -
  have W: "0 < W" using assms by (cases W) auto
  have "n div W < H" using assms W by (simp add: less_mult_imp_div_less mult.commute)
  moreover have "n mod W < W" using W by simp
  then have "n mod W \<le> W - 1" by linarith
  then have "H * (n mod W) \<le> H * (W - 1)" by simp
  ultimately have "H * (n mod W) + n div W < H * (W - 1) + H" by linarith
  also have "\<dots> = W * H" using W by (cases W) (simp_all add: algebra_simps)
  finally show ?thesis .
qed

lemma transposed_index_inj:
  fixes W H :: nat
  assumes "n < W * H" "m < W * H"
    and "H * (n mod W) + n div W = H * (m mod W) + m div W"
  shows "n = m"
proof -
  have W: "0 < W" using assms(1) by (cases W) auto
  have n: "n div W < H" using assms(1) W by (simp add: less_mult_imp_div_less mult.commute)
  have m: "m div W < H" using assms(2) W by (simp add: less_mult_imp_div_less mult.commute)
  from block_index [OF n m assms(3)] have "n mod W = m mod W" "n div W = m div W"
    by simp_all
  then show ?thesis by (metis div_mult_mod_eq)
qed

subsection \<open>transpose\<close>

lemma transpose_offsets:
  fixes width height channels :: uint32_t
  assumes "unat width * unat height * unat channels < 2 ^ 32"
    and "0 < unat channels" and "n < unat width * unat height"
  shows "unat (channels * of_nat n) = unat channels * n"
    and "unat (channels * (height * (of_nat n mod width) + of_nat n div width))
           = unat channels * (unat height * (n mod unat width) + n div unat width)"
proof -
  have WH: "unat width * unat height < 2 ^ 32"
    using assms(1,2)
    by (metis (no_types, lifting) One_nat_def Suc_leI le_less_trans mult.right_neutral mult_le_mono2)
  then have n32: "n < 2 ^ 32" using assms(3) by simp
  have n: "unat (of_nat n :: uint32_t) = n"
    using n32 by (simp add: unat_of_nat)
  have Cn: "unat channels * n < 2 ^ 32"
  proof -
    have "unat channels * n \<le> unat channels * (unat width * unat height)"
      using assms(3) by simp
    also have "\<dots> < 2 ^ 32" using assms(1) by (simp add: mult.commute)
    finally show ?thesis .
  qed
  show "unat (channels * of_nat n) = unat channels * n"
    using Cn n unat_mult_lem [of channels "of_nat n"] by simp
  let ?p = "unat height * (n mod unat width) + n div unat width"
  have p: "?p < unat width * unat height"
    using transposed_index_bound [OF assms(3)] .
  have i: "unat ((of_nat n :: uint32_t) div width) = n div unat width"
    by (simp add: unat_div n)
  have j: "unat ((of_nat n :: uint32_t) mod width) = n mod unat width"
    by (simp add: unat_mod n)
  have hj: "unat height * (n mod unat width) < 2 ^ 32"
    using p WH by linarith
  have "unat (height * (of_nat n mod width)) = unat height * (n mod unat width)"
    using hj j unat_mult_lem [of height "of_nat n mod width"] by simp
  moreover have "?p < 2 ^ 32" using p WH by linarith
  ultimately have pos: "unat (height * (of_nat n mod width) + of_nat n div width) = ?p"
    using i unat_add_lem [of "height * (of_nat n mod width)" "of_nat n div width"] by simp
  have "unat channels * ?p \<le> unat channels * (unat width * unat height)"
    using p by simp
  also have "\<dots> < 2 ^ 32" using assms(1) by (simp add: mult.commute)
  finally have "unat channels * ?p < 2 ^ 32" .
  then show "unat (channels * (height * (of_nat n mod width) + of_nat n div width))
           = unat channels * ?p"
    using pos unat_mult_lem [of channels "height * (of_nat n mod width) + of_nat n div width"]
    by simp
qed


lemma block_disjoint:
  fixes C :: nat
  assumes "k < C" "C * p \<le> C * q + k" "C * q + k < C * p + C"
  shows "q = p"
proof -
  define r where "r = C * q + k - C * p"
  have "r < C" "C * q + k = C * p + r" using assms by (simp_all add: r_def)
  with block_index [OF assms(1), of r q p] show ?thesis by simp
qed

lemma block_bound:
  fixes C :: nat
  assumes "p < N"
  shows "C * p + C \<le> C * N"
proof -
  have "C * Suc p \<le> C * N" using assms by (simp add: Suc_leI del: mult_Suc_right)
  then show ?thesis by simp
qed

lemma transpose_loop:
  fixes width height channels :: uint32_t
  assumes size: "unat width * unat height * unat channels < 2 ^ 32"
    and src: "length source = unat width * unat height * unat channels"
    and tgt: "length target = unat width * unat height * unat channels"
    and m: "m \<le> unat (width * height)"
  shows "\<exists>R. for_each [0..<m] (transpose_pixel width height channels source) target = Inr R
          \<and> length R = length target
          \<and> (\<forall>n<m. \<forall>k<unat channels.
                R ! (unat channels * (unat height * (n mod unat width) + n div unat width) + k)
                  = source ! (unat channels * n + k))"
proof (cases "unat channels = 0")
  case True
  then have ch: "channels = 0" by (simp add: unat_eq_0)
  have "for_each ns (transpose_pixel width height 0 source) target = Inr target" for ns
    by (induction ns) (simp_all add: transpose_pixel_def copy_channels_def)
  then show ?thesis using ch by simp
next
  case False
  then have C: "0 < unat channels" by simp
  let ?W = "unat width" and ?H = "unat height" and ?C = "unat channels"
  have WH: "?W * ?H < 2 ^ 32"
    using size C
    by (metis (no_types, lifting) One_nat_def Suc_leI le_less_trans mult.right_neutral mult_le_mono2)
  then have bound: "unat (width * height) = ?W * ?H"
    using unat_mult_lem [of width height] by simp
  show ?thesis
    using m
  proof (induction m)
    case 0
    then show ?case by simp
  next
    case (Suc m)
    then obtain R where R: "for_each [0..<m] (transpose_pixel width height channels source) target = Inr R"
      "length R = length target"
      "\<forall>n<m. \<forall>k<?C. R ! (?C * (?H * (n mod ?W) + n div ?W) + k) = source ! (?C * n + k)"
      by auto
    have mlt: "m < ?W * ?H" using Suc.prems bound by simp
    let ?p = "?H * (m mod ?W) + m div ?W"
    have p: "?p < ?W * ?H" using transposed_index_bound [OF mlt] .
    have step: "transpose_pixel width height channels source m R
                  = copy_channels source (?C * m) (?C * ?p) channels R"
      using transpose_offsets [OF size C mlt] by (simp add: transpose_pixel_def Let_def)
    have "?C * m + ?C \<le> ?C * (?W * ?H)"
      using mlt by (rule block_bound)
    then have b1: "?C * m + ?C \<le> length source" using src by (simp add: mult.commute)
    have "?C * ?p + ?C \<le> ?C * (?W * ?H)"
      using p by (rule block_bound)
    then have b2: "?C * ?p + ?C \<le> length R" using R(2) tgt by (simp add: mult.commute)
    from copy_channels_nth [OF b1 b2] obtain R' where R':
      "copy_channels source (?C * m) (?C * ?p) channels R = Inr R'"
      "length R' = length R"
      "\<forall>t < length R. R' ! t =
          (if ?C * ?p \<le> t \<and> t < ?C * ?p + ?C then source ! (?C * m + (t - ?C * ?p)) else R ! t)"
      by blast
    have "R' ! (?C * (?H * (n mod ?W) + n div ?W) + k) = source ! (?C * n + k)"
      if n: "n < Suc m" and k: "k < ?C" for n k
    proof -
      let ?q = "?H * (n mod ?W) + n div ?W"
      have nlt: "n < ?W * ?H" using n mlt by simp
      have q: "?q < ?W * ?H" using transposed_index_bound [OF nlt] .
      have "?C * ?q + ?C \<le> ?C * (?W * ?H)"
        using q by (rule block_bound)
      then have t: "?C * ?q + k < length R" using k R(2) tgt by (simp add: mult.commute)
      show ?thesis
      proof (cases "n = m")
        case True
        then show ?thesis using R'(3) t k by simp
      next
        case False
        then have "?q \<noteq> ?p" using transposed_index_inj [OF nlt mlt] by blast
        then have neg: "\<not> (?C * ?p \<le> ?C * ?q + k \<and> ?C * ?q + k < ?C * ?p + ?C)"
          using block_disjoint [OF k, of ?p ?q] by blast
        have eq: "R' ! (?C * ?q + k) =
            (if ?C * ?p \<le> ?C * ?q + k \<and> ?C * ?q + k < ?C * ?p + ?C
             then source ! (?C * m + (?C * ?q + k - ?C * ?p)) else R ! (?C * ?q + k))"
          using R'(3) t by blast
        have "R' ! (?C * ?q + k) = R ! (?C * ?q + k)"
          by (simp only: eq neg if_False)
        moreover have "n < m" using n False by simp
        ultimately show ?thesis using R(3) k by simp
      qed
    qed
    then show ?case
      using R R' step by (simp add: for_each_append)
  qed
qed


lemma transpose_image_spec:
  assumes wf: "well_formed img"
  shows "\<exists>result. transpose_image img = Inr result
          \<and> getWidth result = getHeight img \<and> getHeight result = getWidth img
          \<and> getChannels result = getChannels img \<and> well_formed result
          \<and> (\<forall>i<unat (getHeight img). \<forall>j<unat (getWidth img). \<forall>k<unat (getChannels img).
                pixel result j i k = pixel img i j k)"
proof -
  let ?w = "getWidth img" and ?h = "getHeight img" and ?c = "getChannels img"
  let ?W = "unat ?w" and ?H = "unat ?h" and ?C = "unat ?c"
  let ?new = "LinearImage_new ?h ?w ?c"
  have size: "?W * ?H * ?C < 2 ^ 32" and src: "length (getData img) = ?W * ?H * ?C"
    using wf by (simp_all add: well_formed_def)
  have tgt: "length (getData ?new) = ?W * ?H * ?C"
    by (simp add: LinearImage_new_def mult.commute)
  from transpose_loop [OF size src tgt order_refl] obtain R where R:
    "for_each [0..<unat (?w * ?h)] (transpose_pixel ?w ?h ?c (getData img)) (getData ?new) = Inr R"
    "length R = length (getData ?new)"
    "\<forall>n<unat (?w * ?h). \<forall>k<?C.
        R ! (?C * (?H * (n mod ?W) + n div ?W) + k) = getData img ! (?C * n + k)"
    by blast
  let ?result = "?new\<lparr>getData := R\<rparr>"
  have run: "transpose_image img = Inr ?result"
    using R(1) by (simp add: transpose_image_def Let_def)
  have dims: "getWidth ?result = ?h" "getHeight ?result = ?w" "getChannels ?result = ?c"
    by (simp_all add: LinearImage_new_def)
  have wfr: "well_formed ?result"
    using R(2) tgt size by (simp add: well_formed_def LinearImage_new_def mult.commute)
  have px: "pixel ?result j i k = pixel img i j k"
    if i: "i < ?H" and j: "j < ?W" and k: "k < ?C" for i j k
  proof -
    have C: "0 < ?C" using k by simp
    have WH: "?W * ?H < 2 ^ 32"
      using size C
      by (metis (no_types, lifting) One_nat_def Suc_leI le_less_trans mult.right_neutral mult_le_mono2)
    then have bound: "unat (?w * ?h) = ?W * ?H"
      using unat_mult_lem [of ?w ?h] by simp
    let ?n = "i * ?W + j"
    have "?W * i + ?W \<le> ?W * ?H" using i by (rule block_bound)
    then have n: "?n < unat (?w * ?h)" using j bound by (simp add: mult.commute)
    have "?n mod ?W = j" "?n div ?W = i" using j by simp_all
    then have "R ! (?C * (?H * j + i) + k) = getData img ! (?C * ?n + k)"
      using R(3) n k by (metis (no_types, lifting))
    then show ?thesis
      by (simp add: pixel_def LinearImage_new_def mult.commute)
  qed
  show ?thesis
    using run dims wfr px by blast
qed








subsection \<open>hstack\<close>

lemma unat_mult3:
  fixes a b c :: uint32_t
  assumes "unat a * unat b * unat c < 2 ^ 32"
  shows "unat (a * b * c) = unat a * unat b * unat c"
proof -
  have "unat (a * b * c) = (unat a * unat b mod 2 ^ 32 * unat c) mod 2 ^ 32"
    by (simp add: unat_word_ariths)
  also have "\<dots> = (unat a * unat b * unat c) mod 2 ^ 32"
    by (simp add: mod_mult_left_eq)
  finally show ?thesis using assms by simp
qed

lemma unat_sum_list:
  fixes f :: "'a \<Rightarrow> uint32_t"
  shows "unat (sum_list (map f xs)) = sum_list (map (\<lambda>x. unat (f x)) xs) mod 2 ^ 32"
proof (induction xs)
  case Nil
  then show ?case by simp
next
  case (Cons x xs)
  have "unat (f x + sum_list (map f xs))
          = (unat (f x) + sum_list (map (\<lambda>x. unat (f x)) xs) mod 2 ^ 32) mod 2 ^ 32"
    using Cons.IH by (simp add: unat_word_ariths)
  then show ?case by (simp add: mod_add_right_eq)
qed

lemma length_row_slice:
  assumes "well_formed img" "r < unat (getHeight img)"
  shows "length (row_slice r img) = unat (getWidth img) * unat (getChannels img)"
proof -
  let ?W = "unat (getWidth img)" and ?H = "unat (getHeight img)" and ?C = "unat (getChannels img)"
  have "?W * ?C * r + ?W * ?C \<le> ?W * ?C * ?H" using assms(2) by (rule block_bound)
  then have "r * ?W * ?C + ?W * ?C \<le> length (getData img)"
    using assms(1) by (simp add: well_formed_def mult.commute mult.left_commute)
  then show ?thesis by (simp add: row_slice_def)
qed

lemma row_slice_nth:
  assumes "well_formed img" "r < unat (getHeight img)"
    and "col < unat (getWidth img)" "k < unat (getChannels img)"
  shows "row_slice r img ! (col * unat (getChannels img) + k) = pixel img r col k"
proof -
  let ?W = "unat (getWidth img)" and ?H = "unat (getHeight img)" and ?C = "unat (getChannels img)"
  have "?C * col + ?C \<le> ?C * ?W" using assms(3) by (rule block_bound)
  then have x: "col * ?C + k < ?W * ?C" using assms(4) by (simp add: mult.commute)
  have "?W * ?C * r + ?W * ?C \<le> ?W * ?C * ?H" using assms(2) by (rule block_bound)
  then have "r * ?W * ?C + ?W * ?C \<le> length (getData img)"
    using assms(1) by (simp add: well_formed_def mult.commute mult.left_commute)
  then have "row_slice r img ! (col * ?C + k) = getData img ! (r * ?W * ?C + (col * ?C + k))"
    using x by (simp add: row_slice_def)
  then show ?thesis by (simp add: pixel_def algebra_simps)
qed

lemma memcpy_ok:
  assumes "dst + n \<le> length target" "src + n \<le> length source"
  shows "memcpy target dst source src n
           = Inr (take dst target @ take n (drop src source) @ drop (dst + n) target)"
  using assms by (simp add: memcpy_def)


lemma splice_take:
  assumes "dst + n \<le> length buf" "length s = n"
  shows "take (dst + n) (take dst buf @ s @ drop (dst + n) buf) = take dst buf @ s"
  using assms by simp

lemma splice_drop:
  assumes "dst + n \<le> length buf" "length s = n"
  shows "drop (dst + n + m) (take dst buf @ s @ drop (dst + n) buf) = drop (dst + n + m) buf"
  using assms by (simp add: add.commute)

lemma splice_length:
  assumes "dst + n \<le> length buf" "length s = n"
  shows "length (take dst buf @ s @ drop (dst + n) buf) = length buf"
  using assms by simp

lemma length_stacked_row:
  assumes "\<forall>img\<in>set imgs. well_formed img \<and> getHeight img = h \<and> getChannels img = c"
    and "r < unat h"
  shows "length (stacked_row imgs r) = row_length imgs c"
  using assms(1)
proof (induction imgs)
  case Nil
  then show ?case by (simp add: stacked_row_def row_length_def)
next
  case (Cons img rest)
  then have "length (row_slice r img) = unat (getWidth img) * unat c"
    using length_row_slice [of img r] assms(2) by simp
  then show ?case using Cons by (simp add: stacked_row_def row_length_def)
qed

lemma hstack_row_ok:
  assumes "\<forall>img\<in>set imgs. well_formed img \<and> getHeight img = h \<and> getChannels img = c"
    and r: "r < unat h"
    and "dst + row_length imgs c \<le> length buf"
  shows "hstack_row imgs (of_nat r) c (dst, buf)
           = Inr (dst + row_length imgs c,
                  take dst buf @ stacked_row imgs r @ drop (dst + row_length imgs c) buf)"
  using assms(1,3)
proof (induction imgs arbitrary: dst buf)
  case Nil
  then show ?case by (simp add: stacked_row_def row_length_def)
next
  case (Cons img rest)
  let ?W = "unat (getWidth img)" and ?H = "unat h" and ?C = "unat c"
  have wf: "well_formed img" and h: "getHeight img = h" and c: "getChannels img = c"
    using Cons.prems(1) by simp_all
  have size: "?W * ?H * ?C < 2 ^ 32" and len: "length (getData img) = ?W * ?H * ?C"
    using wf h c by (simp_all add: well_formed_def)
  have "unat h < 2 ^ 32" using unsigned_less [of h] by simp
  then have "r < 2 ^ 32" using r by simp
  then have r32: "unat (of_nat r :: uint32_t) = r"
    by (simp add: unat_of_nat)
  have blk: "?W * ?C * r + ?W * ?C \<le> ?W * ?C * ?H" using r by (rule block_bound)
  then have in_src: "r * ?W * ?C + ?W * ?C \<le> length (getData img)"
    using len by (simp add: mult.commute mult.left_commute)
  have "r * ?W * ?C < 2 ^ 32" using in_src len size by linarith
  then have src: "unat (of_nat r * getWidth img * c) = r * ?W * ?C"
    using unat_mult3 [of "of_nat r" "getWidth img" c] r32 by simp
  have "?W * ?C < 2 ^ 32" using in_src len size by linarith
  then have n: "unat (getWidth img * c) = ?W * ?C"
    using unat_mult_lem [of "getWidth img" c] by simp
  have rl: "row_length (img # rest) c = ?W * ?C + row_length rest c"
    by (simp add: row_length_def)
  have in_dst: "dst + ?W * ?C \<le> length buf" using Cons.prems(2) rl by simp
  let ?buf = "take dst buf @ row_slice r img @ drop (dst + ?W * ?C) buf"
  have copy: "memcpy buf dst (getData img) (r * ?W * ?C) (?W * ?C) = Inr ?buf"
    using memcpy_ok [OF in_dst in_src] c by (simp add: row_slice_def)
  have ls: "length (row_slice r img) = ?W * ?C"
    using length_row_slice [OF wf] r h c by simp
  have lb: "length ?buf = length buf" using splice_length [OF in_dst ls] .
  have IH: "hstack_row rest (of_nat r) c (dst + ?W * ?C, ?buf)
           = Inr (dst + ?W * ?C + row_length rest c,
                  take (dst + ?W * ?C) ?buf @ stacked_row rest r
                    @ drop (dst + ?W * ?C + row_length rest c) ?buf)"
    using Cons.IH [of "dst + ?W * ?C" ?buf] Cons.prems lb rl by simp
  have tk: "take (dst + ?W * ?C) ?buf = take dst buf @ row_slice r img"
    using splice_take [OF in_dst ls] .
  have dr: "drop (dst + ?W * ?C + row_length rest c) ?buf
      = drop (dst + ?W * ?C + row_length rest c) buf"
    using splice_drop [OF in_dst ls] .
  have "hstack_row (img # rest) (of_nat r) c (dst, buf)
          = hstack_row rest (of_nat r) c (dst + ?W * ?C, ?buf)"
    using copy src n by (simp add: Let_def)
  also have "\<dots> = Inr (dst + ?W * ?C + row_length rest c,
                  (take dst buf @ row_slice r img) @ stacked_row rest r
                    @ drop (dst + ?W * ?C + row_length rest c) buf)"
    unfolding IH tk dr ..
  finally show ?case
    by (simp add: stacked_row_def rl add.assoc)
qed

lemma length_stacked_rows:
  assumes "\<forall>img\<in>set imgs. well_formed img \<and> getHeight img = h \<and> getChannels img = c"
    and "m \<le> unat h"
  shows "length (concat (map (stacked_row imgs) [0..<m])) = m * row_length imgs c"
  using assms(2)
proof (induction m)
  case 0
  then show ?case by simp
next
  case (Suc m)
  then show ?case using length_stacked_row [OF assms(1), of m] by simp
qed

lemma hstack_rows_ok:
  assumes all: "\<forall>img\<in>set imgs. well_formed img \<and> getHeight img = h \<and> getChannels img = c"
    and m: "m \<le> unat h"
    and len: "length buf = unat h * row_length imgs c"
  shows "for_each [0..<m] (\<lambda>row. hstack_row imgs (of_nat row) c) (0, buf)
           = Inr (m * row_length imgs c,
                  concat (map (stacked_row imgs) [0..<m]) @ drop (m * row_length imgs c) buf)"
  using m
proof (induction m)
  case 0
  then show ?case by simp
next
  case (Suc m)
  let ?L = "row_length imgs c"
  let ?P = "concat (map (stacked_row imgs) [0..<m])"
  let ?buf = "?P @ drop (m * ?L) buf"
  have m: "m < unat h" using Suc.prems by simp
  have lp: "length ?P = m * ?L" using length_stacked_rows [OF all, of m] m by simp
  have "?L * m + ?L \<le> ?L * unat h" using m by (rule block_bound)
  then have fit: "m * ?L + ?L \<le> length buf" using len by (simp add: mult.commute)
  then have lbuf: "m * ?L + ?L \<le> length ?buf" using lp by simp
  have before: "for_each [0..<m] (\<lambda>row. hstack_row imgs (of_nat row) c) (0, buf)
      = Inr (m * ?L, ?buf)"
    using Suc.IH m by simp
  have tk: "take (m * ?L) ?buf = ?P" using lp by simp
  have dr: "drop (m * ?L + ?L) ?buf = drop (Suc m * ?L) buf" using lp by (simp add: add.commute)
  have "hstack_row imgs (of_nat m) c (m * ?L, ?buf)
      = Inr (m * ?L + ?L, take (m * ?L) ?buf @ stacked_row imgs m @ drop (m * ?L + ?L) ?buf)"
    using hstack_row_ok [OF all m lbuf] .
  then have "hstack_row imgs (of_nat m) c (m * ?L, ?buf)
      = Inr (Suc m * ?L, (?P @ stacked_row imgs m) @ drop (Suc m * ?L) buf)"
    unfolding tk dr by simp
  then show ?case
    using before by (simp add: for_each_append)
qed

lemma hstack_size_ok:
  assumes "\<forall>img\<in>set imgs. getHeight img = h \<and> getChannels img = c"
    and "h0 = 0 \<or> h0 = h" "c0 = 0 \<or> c0 = c"
  shows "hstack_size imgs (w0, h0, c0)
           = Inr (w0 + sum_list (map getWidth imgs),
                  if imgs = [] then h0 else h, if imgs = [] then c0 else c)"
  using assms
proof (induction imgs arbitrary: w0 h0 c0)
  case Nil
  then show ?case by simp
next
  case (Cons img rest)
  have "hstack_size (img # rest) (w0, h0, c0) = hstack_size rest (w0 + getWidth img, h, c)"
    using Cons.prems by (auto simp: Let_def)
  also have "\<dots> = Inr (w0 + getWidth img + sum_list (map getWidth rest),
                  if rest = [] then h else h, if rest = [] then c else c)"
    using Cons.IH [of h c "w0 + getWidth img"] Cons.prems(1) by simp
  finally show ?case by (simp add: add.assoc)
qed

lemma concat_blocks_nth:
  assumes "\<forall>r<m. length (f r) = L" "r < m" "x < L"
  shows "concat (map f [0..<m]) ! (r * L + x) = f r ! x"
  using assms(1,2)
proof (induction m)
  case 0
  then show ?case by simp
next
  case (Suc m)
  have len: "length (concat (map f [0..<m])) = m * L"
    using Suc.prems(1) by (induction m) simp_all
  show ?case
  proof (cases "r = m")
    case True
    then show ?thesis using len by (simp add: nth_append)
  next
    case False
    then have r: "r < m" using Suc.prems(2) by simp
    then have "L * r + L \<le> L * m" by (rule block_bound)
    then have "r * L + x < m * L" using assms(3) by (simp add: mult.commute)
    then show ?thesis using Suc r len by (simp add: nth_append)
  qed
qed

lemma concat_map_nth:
  assumes "k < length xs" "y < length (g (xs ! k))"
  shows "concat (map g xs) ! (sum_list (map (\<lambda>x. length (g x)) (take k xs)) + y) = g (xs ! k) ! y"
  using assms
proof (induction xs arbitrary: k)
  case Nil
  then show ?case by simp
next
  case (Cons x xs)
  show ?case
  proof (cases k)
    case 0
    then show ?thesis using Cons.prems by (simp add: nth_append)
  next
    case (Suc k')
    then show ?thesis using Cons by (simp add: nth_append)
  qed
qed

lemma column_offset_bound:
  assumes "k < length imgs"
  shows "column_offset imgs k + unat (getWidth (imgs ! k)) \<le> column_offset imgs (length imgs)"
proof -
  have "imgs = take k imgs @ imgs ! k # drop (Suc k) imgs"
    using assms by (simp add: id_take_nth_drop)
  then have "sum_list (map (\<lambda>img. unat (getWidth img)) imgs)
      = column_offset imgs k + unat (getWidth (imgs ! k))
        + sum_list (map (\<lambda>img. unat (getWidth img)) (drop (Suc k) imgs))"
    unfolding column_offset_def
    by (metis (no_types, lifting) add.assoc list.simps(9) map_append sum_list.Cons sum_list.append)
  then show ?thesis by (simp add: column_offset_def)
qed

lemma sum_list_scale:
  fixes f :: "'a \<Rightarrow> nat"
  shows "sum_list (map (\<lambda>x. f x * c) xs) = sum_list (map f xs) * c"
  by (induction xs) (simp_all add: add_mult_distrib)

lemma row_length_take:
  assumes "\<forall>img\<in>set imgs. well_formed img \<and> getHeight img = h \<and> getChannels img = c"
    and "r < unat h"
  shows "sum_list (map (\<lambda>img. length (row_slice r img)) (take k imgs)) = column_offset imgs k * unat c"
proof -
  have "length (row_slice r img) = unat (getWidth img) * unat c" if "img \<in> set (take k imgs)" for img
  proof -
    have "img \<in> set imgs" using that by (rule in_set_takeD)
    then show ?thesis using length_row_slice [of img r] assms by simp
  qed
  then have "map (\<lambda>img. length (row_slice r img)) (take k imgs)
      = map (\<lambda>img. unat (getWidth img) * unat c) (take k imgs)"
    by simp
  then show ?thesis
    by (simp only: column_offset_def sum_list_scale)
qed

lemma row_length_eq: "row_length imgs c = column_offset imgs (length imgs) * unat c"
  by (simp add: row_length_def column_offset_def sum_list_scale)

lemma hstack_stacked:
  assumes ne: "imgs \<noteq> []"
    and all: "\<forall>img\<in>set imgs. well_formed img \<and> getHeight img = h \<and> getChannels img = c"
    and w32: "column_offset imgs (length imgs) < 2 ^ 32"
  shows "\<exists>result. hstack imgs = Inr result
          \<and> unat (getWidth result) = column_offset imgs (length imgs)
          \<and> getHeight result = h \<and> getChannels result = c
          \<and> length (getData result) = column_offset imgs (length imgs) * unat h * unat c
          \<and> (\<forall>k<length imgs. \<forall>row<unat h. \<forall>col<unat (getWidth (imgs ! k)). \<forall>ch<unat c.
                pixel result row (column_offset imgs k + col) ch = pixel (imgs ! k) row col ch)"
proof -
  let ?Wt = "column_offset imgs (length imgs)" and ?H = "unat h" and ?C = "unat c"
  let ?w = "sum_list (map getWidth imgs)"
  let ?L = "row_length imgs c"
  let ?new = "LinearImage_new ?w h c"
  let ?rows = "concat (map (stacked_row imgs) [0..<?H])"
  let ?result = "?new\<lparr>getData := ?rows\<rparr>"
  have w: "unat ?w = ?Wt"
    using w32 unat_sum_list [of getWidth imgs] by (simp add: column_offset_def)
  have L: "?L = ?Wt * ?C" by (rule row_length_eq)
  have sz: "hstack_size imgs (0, 0, 0) = Inr (?w, h, c)"
    using hstack_size_ok [of imgs h c 0 0 0] all ne by simp
  have len0: "length (getData ?new) = ?H * ?L"
    using w L by (simp add: LinearImage_new_def mult.commute mult.left_commute)
  have "for_each [0..<?H] (\<lambda>row. hstack_row imgs (of_nat row) c) (0, getData ?new)
          = Inr (?H * ?L, ?rows @ drop (?H * ?L) (getData ?new))"
    using hstack_rows_ok [OF all order_refl len0] .
  then have loop: "for_each [0..<?H] (\<lambda>row. hstack_row imgs (of_nat row) c) (0, getData ?new)
          = Inr (?H * ?L, ?rows)"
    using len0 by simp
  have run: "hstack imgs = Inr ?result"
    using ne sz loop by (simp add: hstack_def Let_def)
  have lrows: "length ?rows = ?H * ?L"
    using length_stacked_rows [OF all order_refl] .
  have dims: "unat (getWidth ?result) = ?Wt" "getHeight ?result = h" "getChannels ?result = c"
    using w by (simp_all add: LinearImage_new_def)
  have lr: "length (getData ?result) = ?Wt * ?H * ?C"
    using lrows L by (simp add: LinearImage_new_def mult.commute mult.left_commute)
  have px: "pixel ?result row (column_offset imgs k + col) ch = pixel (imgs ! k) row col ch"
    if k: "k < length imgs" and row: "row < ?H" and col: "col < unat (getWidth (imgs ! k))"
      and ch: "ch < ?C" for k row col ch
  proof -
    let ?img = "imgs ! k" and ?off = "column_offset imgs k"
    have mem: "?img \<in> set imgs" using k by simp
    then have wf: "well_formed ?img" and hk: "getHeight ?img = h" and ck: "getChannels ?img = c"
      using all by simp_all
    have rowlen: "\<forall>r<?H. length (stacked_row imgs r) = ?L"
      using length_stacked_row [OF all] by simp
    have "?C * col + ?C \<le> ?C * unat (getWidth ?img)" using col by (rule block_bound)
    then have y: "col * ?C + ch < unat (getWidth ?img) * ?C"
      using ch by (simp add: mult.commute)
    have ylen: "col * ?C + ch < length (row_slice row ?img)"
      using y length_row_slice [OF wf] row hk ck by simp
    have "?off + col < ?Wt" using column_offset_bound [OF k] col by simp
    then have "?C * (?off + col) + ?C \<le> ?C * ?Wt" by (rule block_bound)
    then have x: "(?off + col) * ?C + ch < ?L" using ch L by (simp add: mult.commute)
    have "pixel ?result row (?off + col) ch = ?rows ! (row * ?L + ((?off + col) * ?C + ch))"
      using w L by (simp add: pixel_def LinearImage_new_def algebra_simps)
    also have "\<dots> = stacked_row imgs row ! ((?off + col) * ?C + ch)"
      using concat_blocks_nth [OF rowlen row x] .
    also have "(?off + col) * ?C + ch
        = sum_list (map (\<lambda>img. length (row_slice row img)) (take k imgs)) + (col * ?C + ch)"
      using row_length_take [OF all row, of k] by (simp add: add_mult_distrib)
    also have "stacked_row imgs row ! \<dots> = row_slice row ?img ! (col * ?C + ch)"
      unfolding stacked_row_def
      using concat_map_nth [of k imgs "col * ?C + ch" "row_slice row"] k ylen by simp
    also have "\<dots> = pixel ?img row col ch"
      using row_slice_nth [OF wf, of row col ch] row col ch hk ck by simp
    finally show ?thesis .
  qed
  show ?thesis
    using run dims lr px by blast
qed

lemma hstack_spec:
  assumes ne: "imgs \<noteq> []"
    and all: "\<forall>img\<in>set imgs. well_formed img \<and> getHeight img = h \<and> getChannels img = c"
    and w32: "column_offset imgs (length imgs) < 2 ^ 32"
    and size: "column_offset imgs (length imgs) * unat h * unat c < 2 ^ 32"
  shows "\<exists>result. hstack imgs = Inr result
          \<and> unat (getWidth result) = column_offset imgs (length imgs)
          \<and> getHeight result = h \<and> getChannels result = c \<and> well_formed result
          \<and> (\<forall>k<length imgs. \<forall>row<unat h. \<forall>col<unat (getWidth (imgs ! k)). \<forall>ch<unat c.
                pixel result row (column_offset imgs k + col) ch = pixel (imgs ! k) row col ch)"
proof -
  from hstack_stacked [OF ne all w32] obtain result where r:
    "hstack imgs = Inr result" "unat (getWidth result) = column_offset imgs (length imgs)"
    "getHeight result = h" "getChannels result = c"
    "length (getData result) = column_offset imgs (length imgs) * unat h * unat c"
    "\<forall>k<length imgs. \<forall>row<unat h. \<forall>col<unat (getWidth (imgs ! k)). \<forall>ch<unat c.
        pixel result row (column_offset imgs k + col) ch = pixel (imgs ! k) row col ch"
    by blast
  have "well_formed result"
    using r(2-5) size by (simp add: well_formed_def)
  then show ?thesis
    using r(1-4,6) by blast
qed





lemma hstack_size_mismatch:
  assumes "h0 \<noteq> 0" "c0 \<noteq> 0"
    and "\<exists>img\<in>set imgs. getHeight img \<noteq> h0 \<or> getChannels img \<noteq> c0"
  shows "hstack_size imgs (w0, h0, c0) = Inl (PreconditionPanic ''Inconsistent heights.'')
       \<or> hstack_size imgs (w0, h0, c0) = Inl (PreconditionPanic ''Inconsistent channels.'')"
  using assms(3)
proof (induction imgs arbitrary: w0)
  case Nil
  then show ?case by simp
next
  case (Cons img rest)
  show ?case
  proof (cases "getHeight img = h0 \<and> getChannels img = c0")
    case True
    then have "\<exists>img\<in>set rest. getHeight img \<noteq> h0 \<or> getChannels img \<noteq> c0"
      using Cons.prems by auto
    moreover have "hstack_size (img # rest) (w0, h0, c0)
        = hstack_size rest (w0 + getWidth img, h0, c0)"
      using True assms(1,2) by (simp add: Let_def)
    ultimately show ?thesis using Cons.IH [of "w0 + getWidth img"] by simp
  next
    case False
    then show ?thesis using assms(1,2) by (auto simp: Let_def)
  qed
qed

lemma hstack_mismatch:
  assumes "imgs \<noteq> []" "getHeight (hd imgs) \<noteq> 0" "getChannels (hd imgs) \<noteq> 0"
    and "\<exists>img\<in>set imgs. getHeight img \<noteq> getHeight (hd imgs)
                         \<or> getChannels img \<noteq> getChannels (hd imgs)"
  shows "hstack imgs = Inl (PreconditionPanic ''Inconsistent heights.'')
       \<or> hstack imgs = Inl (PreconditionPanic ''Inconsistent channels.'')"
proof -
  obtain img rest where imgs: "imgs = img # rest" using assms(1) by (cases imgs) auto
  have first: "hstack_size imgs (0, 0, 0)
      = hstack_size rest (getWidth img, getHeight img, getChannels img)"
    by (simp add: imgs Let_def)
  have "\<exists>x\<in>set rest. getHeight x \<noteq> getHeight img \<or> getChannels x \<noteq> getChannels img"
    using assms(4) imgs by auto
  then have "hstack_size imgs (0, 0, 0) = Inl (PreconditionPanic ''Inconsistent heights.'')
       \<or> hstack_size imgs (0, 0, 0) = Inl (PreconditionPanic ''Inconsistent channels.'')"
    using hstack_size_mismatch [of "getHeight img" "getChannels img" rest "getWidth img"]
      assms(2,3) first imgs by simp
  then show ?thesis
    using assms(1) by (auto simp: hstack_def)
qed

subsection \<open>vstack\<close>

lemma vstack_flipped_ok:
  assumes "\<forall>img\<in>set imgs. well_formed img"
  shows "\<exists>flipped. vstack_flipped imgs = Inr flipped \<and> length flipped = length imgs
          \<and> (\<forall>k<length imgs. transpose_image (imgs ! k) = Inr (flipped ! k))"
  using assms
proof (induction imgs)
  case Nil
  then show ?case by simp
next
  case (Cons img rest)
  then obtain ts where ts: "vstack_flipped rest = Inr ts" "length ts = length rest"
    "\<forall>k<length rest. transpose_image (rest ! k) = Inr (ts ! k)"
    by auto
  from Cons.prems transpose_image_spec [of img] obtain t where t: "transpose_image img = Inr t"
    by auto
  have "\<forall>k<length (img # rest). transpose_image ((img # rest) ! k) = Inr ((t # ts) ! k)"
    using t ts(3) by (auto simp: nth_Cons split: nat.splits)
  then show ?case using t ts by simp
qed


lemma row_offset_Suc:
  assumes "k < length imgs"
  shows "row_offset imgs (Suc k) = row_offset imgs k + unat (getHeight (imgs ! k))"
  using assms by (simp add: row_offset_def take_Suc_conv_app_nth)

lemma column_offset_flipped:
  assumes "length flipped = length imgs"
    and "\<forall>k<length imgs. getWidth (flipped ! k) = getHeight (imgs ! k)"
  shows "column_offset flipped k = row_offset imgs k"
proof -
  have "map (\<lambda>t. unat (getWidth t)) (take k flipped)
      = map (\<lambda>img. unat (getHeight img)) (take k imgs)"
    using assms by (intro nth_equalityI) simp_all
  then show ?thesis by (simp add: column_offset_def row_offset_def)
qed

lemma vstack_spec:
  assumes ne: "imgs \<noteq> []"
    and all: "\<forall>img\<in>set imgs. well_formed img \<and> getWidth img = w \<and> getChannels img = c"
    and h32: "row_offset imgs (length imgs) < 2 ^ 32"
    and size: "row_offset imgs (length imgs) * unat w * unat c < 2 ^ 32"
  shows "\<exists>result. vstack imgs = Inr result
          \<and> getWidth result = w \<and> getChannels result = c
          \<and> unat (getHeight result) = row_offset imgs (length imgs) \<and> well_formed result
          \<and> (\<forall>k<length imgs. \<forall>row<unat (getHeight (imgs ! k)). \<forall>col<unat w. \<forall>ch<unat c.
                pixel result (row_offset imgs k + row) col ch = pixel (imgs ! k) row col ch)"
proof -
  have wfs: "\<forall>img\<in>set imgs. well_formed img" using all by simp
  from vstack_flipped_ok [OF wfs] obtain flipped where fl:
    "vstack_flipped imgs = Inr flipped" "length flipped = length imgs"
    "\<forall>k<length imgs. transpose_image (imgs ! k) = Inr (flipped ! k)"
    by blast
  have each: "well_formed (flipped ! k) \<and> getWidth (flipped ! k) = getHeight (imgs ! k)
      \<and> getHeight (flipped ! k) = w \<and> getChannels (flipped ! k) = c
      \<and> (\<forall>i<unat (getHeight (imgs ! k)). \<forall>j<unat w. \<forall>ch<unat c.
            pixel (flipped ! k) j i ch = pixel (imgs ! k) i j ch)"
    if k: "k < length imgs" for k
  proof -
    have mem: "imgs ! k \<in> set imgs" using k by simp
    then have wf: "well_formed (imgs ! k)" and wk: "getWidth (imgs ! k) = w"
      and ck: "getChannels (imgs ! k) = c"
      using all by simp_all
    from transpose_image_spec [OF wf] fl(3) k show ?thesis
      using wk ck by auto
  qed
  have all': "\<forall>t\<in>set flipped. well_formed t \<and> getHeight t = w \<and> getChannels t = c"
    using each fl(2) by (auto simp: in_set_conv_nth)
  have ne': "flipped \<noteq> []" using ne fl(2) by auto
  have widths: "\<forall>k<length imgs. getWidth (flipped ! k) = getHeight (imgs ! k)"
    using each by simp
  have off: "column_offset flipped k = row_offset imgs k" for k
    using column_offset_flipped [OF fl(2) widths] .
  have w32: "column_offset flipped (length flipped) < 2 ^ 32"
    using h32 off fl(2) by simp
  have size': "column_offset flipped (length flipped) * unat w * unat c < 2 ^ 32"
    using size off fl(2) by simp
  from hstack_spec [OF ne' all' w32 size'] obtain stacked where st:
    "hstack flipped = Inr stacked"
    "unat (getWidth stacked) = column_offset flipped (length flipped)"
    "getHeight stacked = w" "getChannels stacked = c" "well_formed stacked"
    "\<forall>k<length flipped. \<forall>row<unat w. \<forall>col<unat (getWidth (flipped ! k)). \<forall>ch<unat c.
        pixel stacked row (column_offset flipped k + col) ch = pixel (flipped ! k) row col ch"
    by blast
  from transpose_image_spec [OF st(5)] obtain result where res:
    "transpose_image stacked = Inr result" "getWidth result = getHeight stacked"
    "getHeight result = getWidth stacked" "getChannels result = getChannels stacked"
    "well_formed result"
    "\<forall>i<unat (getHeight stacked). \<forall>j<unat (getWidth stacked). \<forall>ch<unat (getChannels stacked).
        pixel result j i ch = pixel stacked i j ch"
    by blast
  have run: "vstack imgs = Inr result"
    using ne fl(1) st(1) res(1) by (simp add: vstack_def)
  have total: "unat (getWidth stacked) = row_offset imgs (length imgs)"
    using st(2) off fl(2) by simp
  have px: "pixel result (row_offset imgs k + row) col ch = pixel (imgs ! k) row col ch"
    if k: "k < length imgs" and row: "row < unat (getHeight (imgs ! k))"
      and col: "col < unat w" and ch: "ch < unat c" for k row col ch
  proof -
    have "row_offset imgs (Suc k) \<le> row_offset imgs (length imgs)"
    proof -
      have "column_offset flipped k + unat (getWidth (flipped ! k))
          \<le> column_offset flipped (length flipped)"
        using column_offset_bound [of k flipped] k fl(2) by simp
      then show ?thesis using off widths k fl(2) row_offset_Suc [OF k] by simp
    qed
    then have j: "row_offset imgs k + row < unat (getWidth stacked)"
      using row row_offset_Suc [OF k] total by simp
    have "pixel result (row_offset imgs k + row) col ch
        = pixel stacked col (row_offset imgs k + row) ch"
      using res(6) j col ch st(3,4) by simp
    also have "\<dots> = pixel (flipped ! k) col row ch"
      using st(6) k fl(2) col row ch widths off by simp
    also have "\<dots> = pixel (imgs ! k) row col ch"
      using each [OF k] row col ch by simp
    finally show ?thesis .
  qed
  show ?thesis
    using run res(2-5) st(3,4) total px by auto
qed


text \<open>
  The last step of \<open>vstack\<close> transposes the stacked buffer, and the loop of
  \<open>transpose\<close> is bounded by the \<^verbatim>\<open>uint32_t\<close> product \<^verbatim>\<open>width * height\<close>.
  Two buffers of 65536 by 32768 samples, all 1, are stacked into 65536 by
  65536 samples; the product wraps to 0, no pixel is copied and the result
  is as the constructor left it.
\<close>

lemma vstack_samples_overflow:
  "vstack [\<lparr>getWidth = 65536, getHeight = 32768, getChannels = 1, getData = replicate 2147483648 1\<rparr>,
           \<lparr>getWidth = 65536, getHeight = 32768, getChannels = 1, getData = replicate 2147483648 1\<rparr>]
     = Inr (LinearImage_new 65536 65536 1)"
proof -
  let ?A = "\<lparr>getWidth = 65536, getHeight = 32768, getChannels = 1,
              getData = replicate 2147483648 (1 :: float)\<rparr>"
  have wf: "well_formed ?A" by (simp add: well_formed_def)
  from transpose_image_spec [OF wf] obtain T where T:
    "transpose_image ?A = Inr T" "getWidth T = 32768" "getHeight T = 65536"
    "getChannels T = 1" "well_formed T"
    by auto
  have fl: "vstack_flipped [?A, ?A] = Inr [T, T]" using T(1) by simp
  have all: "\<forall>img\<in>set [T, T]. well_formed img \<and> getHeight img = 65536 \<and> getChannels img = 1"
    using T by simp
  have off: "column_offset [T, T] (length [T, T]) = 65536"
    using T(2) by (simp add: column_offset_def)
  then have w32: "column_offset [T, T] (length [T, T]) < 2 ^ 32" by simp
  from hstack_stacked [OF _ all w32] obtain R where R:
    "hstack [T, T] = Inr R" "unat (getWidth R) = column_offset [T, T] (length [T, T])"
    "getHeight R = 65536" "getChannels R = 1"
    by auto
  have "getWidth R = of_nat (unat (getWidth R))" by simp
  also have "\<dots> = 65536" by (simp only: R(2) off) simp
  finally have w: "getWidth R = 65536" .
  have wrap: "unat (65536 * 65536 :: uint32_t) = 0" by simp
  have "transpose_image R = Inr (LinearImage_new 65536 65536 1)"
    using w R(3,4) wrap by (simp add: transpose_image_def Let_def LinearImage_new_def)
  then show ?thesis
    using fl R(1) by (simp add: vstack_def)
qed

text \<open>
  C3, amended. For a sequence of one or more buffers of one width \<open>w\<close> and
  one channel count \<open>c\<close>, whose heights add up to less than \<open>2 ^ 32\<close> and
  whose samples together number less than \<open>2 ^ 32\<close>, \<open>vstack\<close> returns a
  buffer of width \<open>w\<close>, channel count \<open>c\<close> and height the sum of the heights,
  in which input \<open>k\<close> occupies the rows from the sum of the heights before it
  up to that sum plus its own height, with its pixels unchanged: inputs are
  placed top to bottom in sequence order. The inputs are buffers the
  constructor can make.
\<close>

theorem vstack_rows:
  assumes "imgs \<noteq> []"
    and "\<forall>img\<in>set imgs. well_formed img \<and> getWidth img = w \<and> getChannels img = c"
    and "row_offset imgs (length imgs) < 2 ^ 32"
    and "row_offset imgs (length imgs) * unat w * unat c < 2 ^ 32"
  shows "\<exists>result. vstack imgs = Inr result
          \<and> getWidth result = w \<and> getChannels result = c
          \<and> unat (getHeight result) = sum_list (map (\<lambda>img. unat (getHeight img)) imgs)
          \<and> (\<forall>k<length imgs. \<forall>row.
                row_offset imgs k \<le> row \<and> row < row_offset imgs (Suc k) \<longrightarrow>
                (\<forall>col<unat w. \<forall>ch<unat c.
                   pixel result row col ch = pixel (imgs ! k) (row - row_offset imgs k) col ch))"
proof -
  from vstack_spec [OF assms] obtain result where r:
    "vstack imgs = Inr result" "getWidth result = w" "getChannels result = c"
    "unat (getHeight result) = row_offset imgs (length imgs)"
    "\<forall>k<length imgs. \<forall>row<unat (getHeight (imgs ! k)). \<forall>col<unat w. \<forall>ch<unat c.
        pixel result (row_offset imgs k + row) col ch = pixel (imgs ! k) row col ch"
    by blast
  have "pixel result row col ch = pixel (imgs ! k) (row - row_offset imgs k) col ch"
    if k: "k < length imgs" and row: "row_offset imgs k \<le> row" "row < row_offset imgs (Suc k)"
      and col: "col < unat w" and ch: "ch < unat c" for k row col ch
  proof -
    have "row - row_offset imgs k < unat (getHeight (imgs ! k))"
      using row row_offset_Suc [OF k] by simp
    then have "pixel result (row_offset imgs k + (row - row_offset imgs k)) col ch
        = pixel (imgs ! k) (row - row_offset imgs k) col ch"
      using r(5) k col ch by blast
    then show ?thesis using row(1) by simp
  qed
  then show ?thesis
    using r(1-4) by (auto simp: row_offset_def)
qed

theorem vstack_rows_witness:
  "[\<lparr>getWidth = 2, getHeight = 2, getChannels = 1, getData = [0, 1, 2, 3]\<rparr>,
    \<lparr>getWidth = 2, getHeight = 1, getChannels = 1, getData = [7, 8]\<rparr>] \<noteq> []
   \<and> well_formed \<lparr>getWidth = 2, getHeight = 2, getChannels = 1, getData = [0, 1, 2, 3]\<rparr>
   \<and> well_formed \<lparr>getWidth = 2, getHeight = 1, getChannels = 1, getData = [7, 8]\<rparr>
   \<and> vstack [\<lparr>getWidth = 2, getHeight = 2, getChannels = 1, getData = [0, 1, 2, 3]\<rparr>,
              \<lparr>getWidth = 2, getHeight = 1, getChannels = 1, getData = [7, 8]\<rparr>]
       = Inr \<lparr>getWidth = 2, getHeight = 3, getChannels = 1, getData = [0, 1, 2, 3, 7, 8]\<rparr>
   \<and> pixel \<lparr>getWidth = 2, getHeight = 3, getChannels = 1, getData = [0, 1, 2, 3, 7, 8]\<rparr> 2 1 0
       = pixel \<lparr>getWidth = 2, getHeight = 1, getChannels = 1, getData = [7, 8]\<rparr> 0 1 0"
proof -
  let ?a = "\<lparr>getWidth = 2, getHeight = 2, getChannels = 1, getData = [0, 1, 2, 3]\<rparr>"
  let ?b = "\<lparr>getWidth = 2, getHeight = 1, getChannels = 1, getData = [7, 8]\<rparr>"
  let ?out = "\<lparr>getWidth = 2, getHeight = 3, getChannels = 1, getData = [0, 1, 2, 3, 7, 8]\<rparr>"
  have wf: "well_formed ?a" "well_formed ?b" by (simp_all add: well_formed_def)
  have run: "vstack [?a, ?b] = Inr ?out" by code_simp
  have off: "row_offset [?a, ?b] (length [?a, ?b]) = 3" "row_offset [?a, ?b] 1 = 2"
    "row_offset [?a, ?b] (Suc 1) = 3"
    by (simp_all add: row_offset_def)
  have "\<exists>result. vstack [?a, ?b] = Inr result
          \<and> getWidth result = 2 \<and> getChannels result = 1
          \<and> unat (getHeight result) = sum_list (map (\<lambda>img. unat (getHeight img)) [?a, ?b])
          \<and> (\<forall>k<length [?a, ?b]. \<forall>row.
                row_offset [?a, ?b] k \<le> row \<and> row < row_offset [?a, ?b] (Suc k) \<longrightarrow>
                (\<forall>col<unat (2 :: uint32_t). \<forall>ch<unat (1 :: uint32_t).
                   pixel result row col ch
                     = pixel ([?a, ?b] ! k) (row - row_offset [?a, ?b] k) col ch))"
    using wf off by (intro vstack_rows) simp_all
  then have px: "\<forall>k<length [?a, ?b]. \<forall>row.
                row_offset [?a, ?b] k \<le> row \<and> row < row_offset [?a, ?b] (Suc k) \<longrightarrow>
                (\<forall>col<unat (2 :: uint32_t). \<forall>ch<unat (1 :: uint32_t).
                   pixel ?out row col ch
                     = pixel ([?a, ?b] ! k) (row - row_offset [?a, ?b] k) col ch)"
    using run by auto
  have "pixel ?out 2 1 0 = pixel ([?a, ?b] ! 1) (2 - row_offset [?a, ?b] 1) 1 0"
    using px [rule_format, of 1 2 1 0] off by simp
  then have "pixel ?out 2 1 0 = pixel ?b 0 1 0"
    using off by simp
  then show ?thesis using wf run by simp
qed

text \<open>
  C3 as stated fails, in two ways. The height of the result is the
  \<^verbatim>\<open>uint32_t\<close> width sum of \<open>hstack\<close>: two buffers of height \<open>2 ^ 31\<close> and
  width 0 are stacked into a buffer of height 0. And with heights that add up
  without wrapping but \<open>2 ^ 32\<close> samples in all, the result has the claimed
  shape and none of the inputs' pixels: its first sample is 0, the inputs'
  is 1.
\<close>

theorem vstack_overflow_counterexample:
  "well_formed \<lparr>getWidth = 0, getHeight = 2147483648, getChannels = 1, getData = []\<rparr>
   \<and> vstack [\<lparr>getWidth = 0, getHeight = 2147483648, getChannels = 1, getData = []\<rparr>,
             \<lparr>getWidth = 0, getHeight = 2147483648, getChannels = 1, getData = []\<rparr>]
       = Inr \<lparr>getWidth = 0, getHeight = 0, getChannels = 1, getData = []\<rparr>
   \<and> unat (getHeight \<lparr>getWidth = 0, getHeight = 0, getChannels = 1, getData = []\<rparr>)
       \<noteq> unat (2147483648 :: uint32_t) + unat (2147483648 :: uint32_t)
   \<and> well_formed \<lparr>getWidth = 65536, getHeight = 32768, getChannels = 1,
                   getData = replicate 2147483648 1\<rparr>
   \<and> vstack [\<lparr>getWidth = 65536, getHeight = 32768, getChannels = 1, getData = replicate 2147483648 1\<rparr>,
             \<lparr>getWidth = 65536, getHeight = 32768, getChannels = 1, getData = replicate 2147483648 1\<rparr>]
       = Inr \<lparr>getWidth = 65536, getHeight = 65536, getChannels = 1,
               getData = replicate 4294967296 0\<rparr>
   \<and> pixel \<lparr>getWidth = 65536, getHeight = 65536, getChannels = 1,
              getData = replicate 4294967296 0\<rparr> 0 0 0
       \<noteq> pixel \<lparr>getWidth = 65536, getHeight = 32768, getChannels = 1,
                  getData = replicate 2147483648 1\<rparr> 0 0 0"
proof -
  have a: "well_formed \<lparr>getWidth = 0, getHeight = 2147483648, getChannels = 1, getData = []\<rparr>
   \<and> vstack [\<lparr>getWidth = 0, getHeight = 2147483648, getChannels = 1, getData = []\<rparr>,
             \<lparr>getWidth = 0, getHeight = 2147483648, getChannels = 1, getData = []\<rparr>]
       = Inr \<lparr>getWidth = 0, getHeight = 0, getChannels = 1, getData = []\<rparr>
   \<and> unat (getHeight \<lparr>getWidth = 0, getHeight = 0, getChannels = 1, getData = []\<rparr>)
       \<noteq> unat (2147483648 :: uint32_t) + unat (2147483648 :: uint32_t)"
    by (simp add: well_formed_def vstack_def hstack_def transpose_image_def LinearImage_new_def)
  have b: "well_formed \<lparr>getWidth = 65536, getHeight = 32768, getChannels = 1,
                   getData = replicate 2147483648 1\<rparr>"
    by (simp add: well_formed_def)
  have c: "vstack [\<lparr>getWidth = 65536, getHeight = 32768, getChannels = 1, getData = replicate 2147483648 1\<rparr>,
             \<lparr>getWidth = 65536, getHeight = 32768, getChannels = 1, getData = replicate 2147483648 1\<rparr>]
       = Inr \<lparr>getWidth = 65536, getHeight = 65536, getChannels = 1,
               getData = replicate 4294967296 0\<rparr>"
    using vstack_samples_overflow by (simp add: LinearImage_new_def)
  have d: "pixel \<lparr>getWidth = 65536, getHeight = 65536, getChannels = 1,
              getData = replicate 4294967296 0\<rparr> 0 0 0
       \<noteq> pixel \<lparr>getWidth = 65536, getHeight = 32768, getChannels = 1,
                  getData = replicate 2147483648 1\<rparr> 0 0 0"
    by (simp add: pixel_def)
  from a b c d show ?thesis by (intro conjI) simp_all
qed

subsection \<open>Failures of the stacking operations\<close>

lemma vstack_mismatch:
  assumes ne: "imgs \<noteq> []" and wfs: "\<forall>img\<in>set imgs. well_formed img"
    and nz: "getWidth (hd imgs) \<noteq> 0" "getChannels (hd imgs) \<noteq> 0"
    and diff: "\<exists>img\<in>set imgs. getWidth img \<noteq> getWidth (hd imgs)
                          \<or> getChannels img \<noteq> getChannels (hd imgs)"
  shows "vstack imgs = Inl (PreconditionPanic ''Inconsistent heights.'')
       \<or> vstack imgs = Inl (PreconditionPanic ''Inconsistent channels.'')"
proof -
  from vstack_flipped_ok [OF wfs] obtain flipped where fl:
    "vstack_flipped imgs = Inr flipped" "length flipped = length imgs"
    "\<forall>k<length imgs. transpose_image (imgs ! k) = Inr (flipped ! k)"
    by blast
  have each: "getHeight (flipped ! k) = getWidth (imgs ! k)
      \<and> getChannels (flipped ! k) = getChannels (imgs ! k)"
    if k: "k < length imgs" for k
  proof -
    have "well_formed (imgs ! k)" using k wfs by simp
    from transpose_image_spec [OF this] fl(3) k show ?thesis by auto
  qed
  have ne': "flipped \<noteq> []" using ne fl(2) by auto
  have hd: "hd imgs = imgs ! 0" "hd flipped = flipped ! 0"
    using ne ne' by (simp_all add: hd_conv_nth)
  have first: "getHeight (hd flipped) = getWidth (hd imgs)"
    "getChannels (hd flipped) = getChannels (hd imgs)"
    using each [of 0] ne hd by simp_all
  from diff obtain k where k: "k < length imgs"
    "getWidth (imgs ! k) \<noteq> getWidth (hd imgs) \<or> getChannels (imgs ! k) \<noteq> getChannels (hd imgs)"
    by (auto simp: in_set_conv_nth)
  then have "flipped ! k \<in> set flipped"
    "getHeight (flipped ! k) \<noteq> getHeight (hd flipped)
       \<or> getChannels (flipped ! k) \<noteq> getChannels (hd flipped)"
    using each [OF k(1)] first fl(2) by simp_all
  then have "\<exists>t\<in>set flipped. getHeight t \<noteq> getHeight (hd flipped)
      \<or> getChannels t \<noteq> getChannels (hd flipped)"
    by blast
  from hstack_mismatch [OF ne' _ _ this] first nz
  have "hstack flipped = Inl (PreconditionPanic ''Inconsistent heights.'')
      \<or> hstack flipped = Inl (PreconditionPanic ''Inconsistent channels.'')"
    by simp
  then show ?thesis
    using ne fl(1) by (auto simp: vstack_def)
qed


text \<open>
  What the two operations do guarantee. \<open>hstack\<close> fails on the empty
  sequence, and on a non-empty sequence whose first input has a non-zero
  height and channel count it fails when some input's height or channel count
  differs from the first input's; on a non-empty sequence of buffers that
  agree on height and channel count it returns a buffer, as long as the
  widths add up in 32 bits. \<open>vstack\<close> does the same with width in place of
  height; its inconsistency is detected by \<open>hstack\<close> on the transposed
  inputs, hence reported as one of heights.
\<close>

lemma stack_preconditions:
  "hstack [] = Inl (PreconditionPanic ''Must supply one or more images for stacking.'')
   \<and> vstack [] = Inl (PreconditionPanic ''Must supply one or more images for stacking.'')
   \<and> (imgs \<noteq> [] \<and> getHeight (hd imgs) \<noteq> 0 \<and> getChannels (hd imgs) \<noteq> 0
        \<and> (\<exists>img\<in>set imgs. getHeight img \<noteq> getHeight (hd imgs)
                            \<or> getChannels img \<noteq> getChannels (hd imgs))
      \<longrightarrow> hstack imgs = Inl (PreconditionPanic ''Inconsistent heights.'')
          \<or> hstack imgs = Inl (PreconditionPanic ''Inconsistent channels.''))
   \<and> (imgs \<noteq> []
        \<and> (\<forall>img\<in>set imgs. well_formed img \<and> getHeight img = getHeight (hd imgs)
                            \<and> getChannels img = getChannels (hd imgs))
        \<and> column_offset imgs (length imgs) < 2 ^ 32
      \<longrightarrow> (\<exists>result. hstack imgs = Inr result))
   \<and> (imgs \<noteq> [] \<and> (\<forall>img\<in>set imgs. well_formed img)
        \<and> getWidth (hd imgs) \<noteq> 0 \<and> getChannels (hd imgs) \<noteq> 0
        \<and> (\<exists>img\<in>set imgs. getWidth img \<noteq> getWidth (hd imgs)
                            \<or> getChannels img \<noteq> getChannels (hd imgs))
      \<longrightarrow> vstack imgs = Inl (PreconditionPanic ''Inconsistent heights.'')
          \<or> vstack imgs = Inl (PreconditionPanic ''Inconsistent channels.''))
   \<and> (imgs \<noteq> []
        \<and> (\<forall>img\<in>set imgs. well_formed img \<and> getWidth img = getWidth (hd imgs)
                            \<and> getChannels img = getChannels (hd imgs))
        \<and> row_offset imgs (length imgs) < 2 ^ 32
        \<and> row_offset imgs (length imgs) * unat (getWidth (hd imgs))
              * unat (getChannels (hd imgs)) < 2 ^ 32
      \<longrightarrow> (\<exists>result. vstack imgs = Inr result))"
proof (intro conjI impI)
  show "hstack [] = Inl (PreconditionPanic ''Must supply one or more images for stacking.'')"
    by (simp add: hstack_def)
  show "vstack [] = Inl (PreconditionPanic ''Must supply one or more images for stacking.'')"
    by (simp add: vstack_def)
next
  assume "imgs \<noteq> [] \<and> getHeight (hd imgs) \<noteq> 0 \<and> getChannels (hd imgs) \<noteq> 0
        \<and> (\<exists>img\<in>set imgs. getHeight img \<noteq> getHeight (hd imgs)
                            \<or> getChannels img \<noteq> getChannels (hd imgs))"
  then show "hstack imgs = Inl (PreconditionPanic ''Inconsistent heights.'')
          \<or> hstack imgs = Inl (PreconditionPanic ''Inconsistent channels.'')"
    using hstack_mismatch [of imgs] by blast
next
  assume a: "imgs \<noteq> []
        \<and> (\<forall>img\<in>set imgs. well_formed img \<and> getHeight img = getHeight (hd imgs)
                            \<and> getChannels img = getChannels (hd imgs))
        \<and> column_offset imgs (length imgs) < 2 ^ 32"
  from hstack_stacked [of imgs "getHeight (hd imgs)" "getChannels (hd imgs)"] a
  show "\<exists>result. hstack imgs = Inr result" by blast
next
  assume "imgs \<noteq> [] \<and> (\<forall>img\<in>set imgs. well_formed img)
        \<and> getWidth (hd imgs) \<noteq> 0 \<and> getChannels (hd imgs) \<noteq> 0
        \<and> (\<exists>img\<in>set imgs. getWidth img \<noteq> getWidth (hd imgs)
                            \<or> getChannels img \<noteq> getChannels (hd imgs))"
  then show "vstack imgs = Inl (PreconditionPanic ''Inconsistent heights.'')
          \<or> vstack imgs = Inl (PreconditionPanic ''Inconsistent channels.'')"
    using vstack_mismatch [of imgs] by blast
next
  assume a: "imgs \<noteq> []
        \<and> (\<forall>img\<in>set imgs. well_formed img \<and> getWidth img = getWidth (hd imgs)
                            \<and> getChannels img = getChannels (hd imgs))
        \<and> row_offset imgs (length imgs) < 2 ^ 32
        \<and> row_offset imgs (length imgs) * unat (getWidth (hd imgs))
              * unat (getChannels (hd imgs)) < 2 ^ 32"
  from vstack_spec [of imgs "getWidth (hd imgs)" "getChannels (hd imgs)"] a
  show "\<exists>result. vstack imgs = Inr result" by blast
qed

lemma stack_preconditions_example:
  "(hstack [\<lparr>getWidth = 2, getHeight = 2, getChannels = 1, getData = [0, 1, 2, 3]\<rparr>,
            \<lparr>getWidth = 2, getHeight = 1, getChannels = 1, getData = [7, 8]\<rparr>]
      = Inl (PreconditionPanic ''Inconsistent heights.'')
    \<or> hstack [\<lparr>getWidth = 2, getHeight = 2, getChannels = 1, getData = [0, 1, 2, 3]\<rparr>,
              \<lparr>getWidth = 2, getHeight = 1, getChannels = 1, getData = [7, 8]\<rparr>]
      = Inl (PreconditionPanic ''Inconsistent channels.''))
   \<and> (\<exists>result. vstack [\<lparr>getWidth = 2, getHeight = 2, getChannels = 1, getData = [0, 1, 2, 3]\<rparr>,
                        \<lparr>getWidth = 2, getHeight = 1, getChannels = 1, getData = [7, 8]\<rparr>]
                 = Inr result)
   \<and> (vstack [\<lparr>getWidth = 2, getHeight = 2, getChannels = 1, getData = [0, 1, 2, 3]\<rparr>,
              \<lparr>getWidth = 1, getHeight = 2, getChannels = 1, getData = [7, 8]\<rparr>]
      = Inl (PreconditionPanic ''Inconsistent heights.'')
    \<or> vstack [\<lparr>getWidth = 2, getHeight = 2, getChannels = 1, getData = [0, 1, 2, 3]\<rparr>,
              \<lparr>getWidth = 1, getHeight = 2, getChannels = 1, getData = [7, 8]\<rparr>]
      = Inl (PreconditionPanic ''Inconsistent channels.''))
   \<and> (\<exists>result. hstack [\<lparr>getWidth = 2, getHeight = 2, getChannels = 1, getData = [0, 1, 2, 3]\<rparr>,
                        \<lparr>getWidth = 1, getHeight = 2, getChannels = 1, getData = [7, 8]\<rparr>]
                 = Inr result)"
proof -
  let ?a = "\<lparr>getWidth = 2, getHeight = 2, getChannels = 1, getData = [0, 1, 2, 3]\<rparr>"
  let ?b = "\<lparr>getWidth = 2, getHeight = 1, getChannels = 1, getData = [7, 8]\<rparr>"
  let ?c = "\<lparr>getWidth = 1, getHeight = 2, getChannels = 1, getData = [7, 8]\<rparr>"
  have wf: "well_formed ?a" "well_formed ?b" "well_formed ?c"
    by (simp_all add: well_formed_def)
  have off: "column_offset [?a, ?c] (length [?a, ?c]) = 3"
    "row_offset [?a, ?b] (length [?a, ?b]) = 3"
    by (simp_all add: column_offset_def row_offset_def)
  note ab = stack_preconditions [of "[?a, ?b]"]
  note ac = stack_preconditions [of "[?a, ?c]"]
  have 1: "hstack [?a, ?b] = Inl (PreconditionPanic ''Inconsistent heights.'')
      \<or> hstack [?a, ?b] = Inl (PreconditionPanic ''Inconsistent channels.'')"
    using ab by simp
  have 2: "\<exists>result. vstack [?a, ?b] = Inr result"
    using ab wf off by simp
  have 3: "vstack [?a, ?c] = Inl (PreconditionPanic ''Inconsistent heights.'')
      \<or> vstack [?a, ?c] = Inl (PreconditionPanic ''Inconsistent channels.'')"
    using ac wf by simp
  have 4: "\<exists>result. hstack [?a, ?c] = Inr result"
    using ac wf off by simp
  show ?thesis using 1 2 3 4 by blast
qed

text \<open>
  C9. \<open>hstack\<close> is to fail whenever some input's height or channel count
  differs from the first input's, and \<open>vstack\<close> likewise with width for
  height. The code does not: its size loop keeps 0 for "not yet set", which
  collides with a buffer whose height and channel count are 0 (a
  default-constructed one). After such a first input the second input's
  height and channel count are adopted, not compared, and a buffer is
  returned although the inputs disagree; the same two inputs in the other
  order end in the precondition failure.
\<close>

theorem stack_zero_height_accepted:
  "hstack [\<lparr>getWidth = 0, getHeight = 0, getChannels = 0, getData = []\<rparr>,
           \<lparr>getWidth = 1, getHeight = 1, getChannels = 1, getData = [5]\<rparr>]
     = Inr \<lparr>getWidth = 1, getHeight = 1, getChannels = 1, getData = [5]\<rparr>
   \<and> hstack [\<lparr>getWidth = 1, getHeight = 1, getChannels = 1, getData = [5]\<rparr>,
             \<lparr>getWidth = 0, getHeight = 0, getChannels = 0, getData = []\<rparr>]
     = Inl (PreconditionPanic ''Inconsistent heights.'')
   \<and> vstack [\<lparr>getWidth = 0, getHeight = 0, getChannels = 0, getData = []\<rparr>,
             \<lparr>getWidth = 1, getHeight = 1, getChannels = 1, getData = [5]\<rparr>]
     = Inr \<lparr>getWidth = 1, getHeight = 1, getChannels = 1, getData = [5]\<rparr>
   \<and> vstack [\<lparr>getWidth = 1, getHeight = 1, getChannels = 1, getData = [5]\<rparr>,
             \<lparr>getWidth = 0, getHeight = 0, getChannels = 0, getData = []\<rparr>]
     = Inl (PreconditionPanic ''Inconsistent heights.'')"
  by code_simp

theorem stack_zero_height_accepted_witness:
  "hstack [\<lparr>getWidth = 0, getHeight = 0, getChannels = 0, getData = []\<rparr>,
           \<lparr>getWidth = 1, getHeight = 1, getChannels = 1, getData = [5]\<rparr>]
     \<noteq> hstack [\<lparr>getWidth = 1, getHeight = 1, getChannels = 1, getData = [5]\<rparr>,
               \<lparr>getWidth = 0, getHeight = 0, getChannels = 0, getData = []\<rparr>]
   \<and> getHeight \<lparr>getWidth = 1, getHeight = 1, getChannels = 1, getData = [5]\<rparr>
       \<noteq> getHeight \<lparr>getWidth = 0, getHeight = 0, getChannels = 0, getData = []\<rparr>"
  using stack_zero_height_accepted by simp

subsection \<open>cropRegion within bounds\<close>







subsection \<open>combineChannels\<close>

lemma combine_planes_ok:
  assumes "\<forall>plane\<in>set ps. unat sindex < length (getData plane)"
    and "unat dindex + length ps \<le> length dst" and "length dst < 2 ^ 32"
  shows "\<exists>R. combine_planes ps sindex (dindex, dst) = Inr (dindex + of_nat (length ps), R)
          \<and> length R = length dst
          \<and> (\<forall>t<length dst. R ! t =
                (if unat dindex \<le> t \<and> t < unat dindex + length ps
                 then getData (ps ! (t - unat dindex)) ! unat sindex else dst ! t))"
  using assms
proof (induction ps arbitrary: dindex dst)
  case Nil
  then show ?case by auto
next
  case (Cons plane rest)
  let ?dst = "dst[unat dindex := getData plane ! unat sindex]"
  have d: "unat dindex < length dst" using Cons.prems(2) by simp
  then have "unat dindex + unat (1 :: uint32_t) < 2 ^ 32" using Cons.prems(3) by simp
  then have d1: "unat (dindex + 1) = unat dindex + 1"
    using unat_add_lem [of dindex 1] by simp
  have step: "combine_planes (plane # rest) sindex (dindex, dst)
      = combine_planes rest sindex (dindex + 1, ?dst)"
    using Cons.prems(1) d by simp
  have "\<exists>R. combine_planes rest sindex (dindex + 1, ?dst)
            = Inr (dindex + 1 + of_nat (length rest), R)
          \<and> length R = length ?dst
          \<and> (\<forall>t<length ?dst. R ! t =
                (if unat (dindex + 1) \<le> t \<and> t < unat (dindex + 1) + length rest
                 then getData (rest ! (t - unat (dindex + 1))) ! unat sindex else ?dst ! t))"
    using Cons.prems d1 by (intro Cons.IH) simp_all
  then obtain R where R: "combine_planes rest sindex (dindex + 1, ?dst)
            = Inr (dindex + 1 + of_nat (length rest), R)"
    "length R = length dst"
    "\<forall>t<length dst. R ! t =
        (if unat dindex + 1 \<le> t \<and> t < unat dindex + 1 + length rest
         then getData (rest ! (t - (unat dindex + 1))) ! unat sindex else ?dst ! t)"
    using d1 by auto
  have "R ! t = (if unat dindex \<le> t \<and> t < unat dindex + length (plane # rest)
                 then getData ((plane # rest) ! (t - unat dindex)) ! unat sindex else dst ! t)"
    if t: "t < length dst" for t
  proof (cases "t = unat dindex")
    case True
    then show ?thesis using R(3) t by simp
  next
    case False
    then show ?thesis using R(3) t by (auto simp: nth_Cons')
  qed
  moreover have "dindex + 1 + of_nat (length rest) = dindex + of_nat (length (plane # rest))"
    by simp
  ultimately show ?case using step R(1,2) by simp
qed


lemma unat_of_nat32:
  "x < 2 ^ 32 \<Longrightarrow> unat (of_nat x :: uint32_t) = x"
  by (simp add: unat_of_nat)

lemma block_div_mod:
  fixes C :: nat
  assumes "k < C"
  shows "(C * p + k) div C = p" "(C * p + k) mod C = k"
  using assms by simp_all

lemma combine_loop_ok:
  assumes n: "0 < length img" and size: "P * length img < 2 ^ 32"
    and planes: "\<forall>plane\<in>set img. length (getData plane) = P"
    and len: "length dst = P * length img" and s: "s \<le> P"
  shows "\<exists>R. combine_loop img (P * length img) (of_nat s) (of_nat (s * length img)) dst
            = Some (Inr R)
          \<and> length R = P * length img
          \<and> (\<forall>t<P * length img. R ! t =
                (if t < s * length img then dst ! t
                 else getData (img ! (t mod length img)) ! (t div length img)))"
  using len s
proof (induction "P - s" arbitrary: s dst)
  case 0
  let ?n = "length img"
  have s: "s = P" using 0 by simp
  have "unat (of_nat (P * ?n) :: uint32_t) = P * ?n"
    using size by (rule unat_of_nat32)
  then have "combine_loop img (P * ?n) (of_nat s) (of_nat (s * ?n)) dst = Some (Inr dst)"
    using s by (subst combine_loop.simps) simp
  then show ?case using 0 s by simp
next
  case (Suc d)
  let ?n = "length img"
  have s: "s < P" using Suc.hyps(2) by simp
  have "?n * s + ?n \<le> ?n * P" using s by (rule block_bound)
  then have fit: "s * ?n + ?n \<le> P * ?n" by (simp add: mult.commute)
  then have sn32: "s * ?n < 2 ^ 32" using size by simp
  then have dn: "unat (of_nat (s * ?n) :: uint32_t) = s * ?n"
    by (rule unat_of_nat32)
  have "P \<le> P * ?n" using n by (cases img) simp_all
  then have "s < 2 ^ 32" using s size by linarith
  then have sn: "unat (of_nat s :: uint32_t) = s"
    by (rule unat_of_nat32)
  have rd: "\<forall>plane\<in>set img. unat (of_nat s :: uint32_t) < length (getData plane)"
    using planes s sn by simp
  have wr: "unat (of_nat (s * ?n) :: uint32_t) + ?n \<le> length dst"
    using dn fit Suc.prems(1) by simp
  have l32: "length dst < 2 ^ 32" using Suc.prems(1) size by simp
  from combine_planes_ok [OF rd wr l32] obtain R1 where R1:
    "combine_planes img (of_nat s) (of_nat (s * ?n), dst)
       = Inr (of_nat (s * ?n) + of_nat ?n, R1)"
    "length R1 = length dst"
    "\<forall>t<length dst. R1 ! t =
        (if s * ?n \<le> t \<and> t < s * ?n + ?n
         then getData (img ! (t - s * ?n)) ! s else dst ! t)"
    using dn sn by auto
  have next_d: "(of_nat (s * ?n) + of_nat ?n :: uint32_t) = of_nat (Suc s * ?n)"
    by (simp add: add.commute)
  have next_s: "(of_nat s + 1 :: uint32_t) = of_nat (Suc s)" by simp
  have unfold: "combine_loop img (P * ?n) (of_nat s) (of_nat (s * ?n)) dst
      = combine_loop img (P * ?n) (of_nat (Suc s)) (of_nat (Suc s * ?n)) R1"
    using dn fit R1(1) n s
    by (subst combine_loop.simps) (simp add: next_d next_s del: of_nat_Suc of_nat_add of_nat_mult mult_Suc)
  have "\<exists>R. combine_loop img (P * ?n) (of_nat (Suc s)) (of_nat (Suc s * ?n)) R1 = Some (Inr R)
          \<and> length R = P * ?n
          \<and> (\<forall>t<P * ?n. R ! t =
                (if t < Suc s * ?n then R1 ! t
                 else getData (img ! (t mod ?n)) ! (t div ?n)))"
    using Suc.hyps(2) Suc.prems R1(2) s by (intro Suc.hyps(1)) simp_all
  then obtain R where R:
    "combine_loop img (P * ?n) (of_nat (Suc s)) (of_nat (Suc s * ?n)) R1 = Some (Inr R)"
    "length R = P * ?n"
    "\<forall>t<P * ?n. R ! t =
        (if t < Suc s * ?n then R1 ! t else getData (img ! (t mod ?n)) ! (t div ?n))"
    by blast
  have "R ! t = (if t < s * ?n then dst ! t else getData (img ! (t mod ?n)) ! (t div ?n))"
    if t: "t < P * ?n" for t
  proof -
    have tl: "t < length dst" using t Suc.prems(1) by simp
    consider "t < s * ?n" | "s * ?n \<le> t" "t < s * ?n + ?n" | "s * ?n + ?n \<le> t"
      by linarith
    then show ?thesis
    proof cases
      case 1
      then show ?thesis using R(3) R1(3) t tl by simp
    next
      case 2
      define k where "k = t - s * ?n"
      have k: "k < ?n" "t = ?n * s + k" using 2 by (simp_all add: k_def mult.commute)
      then have "t mod ?n = k" "t div ?n = s"
        using block_div_mod [of k ?n s] by simp_all
      moreover have "R ! t = getData (img ! (t - s * ?n)) ! s"
        using R(3) R1(3) t tl 2 by simp
      ultimately show ?thesis using 2 k_def by simp
    next
      case 3
      then show ?thesis using R(3) t by simp
    qed
  qed
  then show ?case using unfold R(1,2) by simp
qed

text \<open>
  Past 32 bits: when the result has exactly \<open>2 ^ 32\<close> samples the counter
  \<open>dindex\<close> wraps to 0 after the last pixel, the loop goes on and reads
  sample \<open>P\<close> of a plane that has \<open>P\<close> samples.
\<close>

lemma combine_planes_runs:
  assumes "\<forall>plane\<in>set ps. unat sindex < length (getData plane)"
    and "unat dindex + length ps \<le> length dst" and "unat dindex + length ps \<le> 2 ^ 32"
  shows "\<exists>R. combine_planes ps sindex (dindex, dst) = Inr (dindex + of_nat (length ps), R)
          \<and> length R = length dst"
  using assms
proof (induction ps arbitrary: dindex dst)
  case Nil
  then show ?case by simp
next
  case (Cons plane rest)
  let ?dst = "dst[unat dindex := getData plane ! unat sindex]"
  have d: "unat dindex < length dst" using Cons.prems(2) by simp
  have rd: "unat sindex < length (getData plane)" using Cons.prems(1) by simp
  have step: "combine_planes (plane # rest) sindex (dindex, dst)
      = combine_planes rest sindex (dindex + 1, ?dst)"
    using rd d by simp
  show ?case
  proof (cases rest)
    case Nil
    then show ?thesis using step by simp
  next
    case (Cons p ps')
    then have "unat dindex + unat (1 :: uint32_t) < 2 ^ 32" using Cons.prems(3) by simp
    then have d1: "unat (dindex + 1) = unat dindex + 1"
      using unat_add_lem [of dindex 1] by simp
    have "\<exists>R. combine_planes rest sindex (dindex + 1, ?dst)
              = Inr (dindex + 1 + of_nat (length rest), R) \<and> length R = length ?dst"
      using Cons.prems d1 by (intro Cons.IH) simp_all
    then obtain R where R: "combine_planes rest sindex (dindex + 1, ?dst)
              = Inr (dindex + 1 + of_nat (length rest), R)" "length R = length dst"
      by auto
    moreover have "dindex + 1 + of_nat (length rest) = dindex + of_nat (length (plane # rest))"
      by simp
    ultimately show ?thesis using step by simp
  qed
qed

lemma combine_loop_overflow:
  assumes n: "0 < length img" and size: "P * length img = 2 ^ 32" and P32: "P < 2 ^ 32"
    and planes: "\<forall>plane\<in>set img. length (getData plane) = P"
    and len: "length dst = P * length img" and s: "s \<le> P"
  shows "combine_loop img (P * length img) (of_nat s) (of_nat (s * length img)) dst
           = Some (Inl OutOfBounds)"
  using len s
proof (induction "P - s" arbitrary: s dst)
  case 0
  let ?n = "length img"
  have s: "s = P" using 0 by simp
  obtain plane rest where img: "img = plane # rest" using n by (cases img) auto
  have "(of_nat (P * ?n) :: uint32_t) = of_nat (2 ^ 32)" by (simp only: size)
  also have "\<dots> = 0" by simp
  finally have d0: "(of_nat (P * ?n) :: uint32_t) = 0" .
  have sP: "unat (of_nat P :: uint32_t) = P" using P32 by (rule unat_of_nat32)
  have "length (getData plane) = P" using planes img by simp
  then have "combine_planes img (of_nat P) (0, dst) = Inl OutOfBounds"
    using sP img by simp
  moreover have "(0 :: nat) < P * ?n" using size by simp
  ultimately have "combine_loop img (P * ?n) (of_nat P) 0 dst = Some (Inl OutOfBounds)"
    by (subst combine_loop.simps) simp
  then show ?case using s d0 by (simp only:)
next
  case (Suc d)
  let ?n = "length img"
  have s: "s < P" using Suc.hyps(2) by simp
  have "?n * s + ?n \<le> ?n * P" using s by (rule block_bound)
  then have fit: "s * ?n + ?n \<le> P * ?n" by (simp add: mult.commute)
  then have sn32: "s * ?n < 2 ^ 32" using size n by linarith
  then have dn: "unat (of_nat (s * ?n) :: uint32_t) = s * ?n"
    by (rule unat_of_nat32)
  have "s < 2 ^ 32" using s P32 by simp
  then have sn: "unat (of_nat s :: uint32_t) = s"
    by (rule unat_of_nat32)
  have rd: "\<forall>plane\<in>set img. unat (of_nat s :: uint32_t) < length (getData plane)"
    using planes s sn by simp
  have wr: "unat (of_nat (s * ?n) :: uint32_t) + ?n \<le> length dst"
    using dn fit Suc.prems(1) by simp
  have w32: "unat (of_nat (s * ?n) :: uint32_t) + ?n \<le> 2 ^ 32"
    using dn fit size by simp
  from combine_planes_runs [OF rd wr w32] obtain R1 where R1:
    "combine_planes img (of_nat s) (of_nat (s * ?n), dst)
       = Inr (of_nat (s * ?n) + of_nat ?n, R1)"
    "length R1 = length dst"
    by auto
  have next_d: "(of_nat (s * ?n) + of_nat ?n :: uint32_t) = of_nat (Suc s * ?n)"
    by (simp add: add.commute)
  have next_s: "(of_nat s + 1 :: uint32_t) = of_nat (Suc s)" by simp
  have unfold: "combine_loop img (P * ?n) (of_nat s) (of_nat (s * ?n)) dst
      = combine_loop img (P * ?n) (of_nat (Suc s)) (of_nat (Suc s * ?n)) R1"
    using dn fit R1(1) n s
    by (subst combine_loop.simps) (simp add: next_d next_s del: of_nat_Suc of_nat_add of_nat_mult mult_Suc)
  have "combine_loop img (P * ?n) (of_nat (Suc s)) (of_nat (Suc s * ?n)) R1
      = Some (Inl OutOfBounds)"
    using Suc.hyps(2) Suc.prems R1(2) s by (intro Suc.hyps(1)) simp_all
  then show ?case using unfold by simp
qed

lemma combine_check_ok:
  assumes "\<forall>plane\<in>set ps. getWidth plane = w \<and> getHeight plane = h \<and> getChannels plane = 1"
  shows "combine_check ps w h = Inr ()"
  using assms
proof (induction ps)
  case Nil
  show ?case by (simp only: combine_check.simps)
next
  case (Cons plane rest)
  have p: "getWidth plane = w" "getHeight plane = h" "getChannels plane = 1"
    using Cons.prems by (meson list.set_intros(1))+
  have "\<forall>plane\<in>set rest. getWidth plane = w \<and> getHeight plane = h \<and> getChannels plane = 1"
    using Cons.prems by (meson list.set_intros(2))
  then have "combine_check rest w h = Inr ()" by (rule Cons.IH)
  then show ?case using p by (simp only: combine_check.simps simp_thms if_False)
qed

lemma combine_check_fails:
  assumes "\<exists>plane\<in>set ps. getWidth plane \<noteq> w \<or> getHeight plane \<noteq> h \<or> getChannels plane \<noteq> 1"
  shows "combine_check ps w h = Inl (PreconditionPanic ''Planes must all have same width.'')
       \<or> combine_check ps w h = Inl (PreconditionPanic ''Planes must all have same height.'')
       \<or> combine_check ps w h = Inl (PreconditionPanic ''Planes must be single channel.'')"
  using assms
proof (induction ps)
  case Nil
  then show ?case by simp
next
  case (Cons plane rest)
  show ?case
  proof (cases "getWidth plane = w \<and> getHeight plane = h \<and> getChannels plane = 1")
    case True
    then have "\<exists>plane\<in>set rest. getWidth plane \<noteq> w \<or> getHeight plane \<noteq> h \<or> getChannels plane \<noteq> 1"
      using Cons.prems by auto
    then show ?thesis using Cons.IH True by simp
  next
    case False
    then show ?thesis by auto
  qed
qed

lemma combineChannels_spec:
  assumes ne: "imgs \<noteq> []"
    and all: "\<forall>plane\<in>set imgs. well_formed plane \<and> getWidth plane = getWidth (imgs ! 0)
                \<and> getHeight plane = getHeight (imgs ! 0) \<and> getChannels plane = 1"
    and n32: "length imgs < 2 ^ 32"
    and size: "unat (getWidth (imgs ! 0)) * unat (getHeight (imgs ! 0)) * length imgs < 2 ^ 32"
  shows "\<exists>result. combineChannels imgs = Some (Inr result)
          \<and> getWidth result = getWidth (imgs ! 0) \<and> getHeight result = getHeight (imgs ! 0)
          \<and> unat (getChannels result) = length imgs \<and> well_formed result
          \<and> (\<forall>p<unat (getWidth (imgs ! 0)) * unat (getHeight (imgs ! 0)). \<forall>k<length imgs.
                getData result ! (p * length imgs + k) = getData (imgs ! k) ! p)"
proof -
  let ?w = "getWidth (imgs ! 0)" and ?h = "getHeight (imgs ! 0)"
  let ?n = "length imgs"
  let ?P = "unat ?w * unat ?h"
  let ?new = "LinearImage_new ?w ?h (of_nat ?n)"
  have n: "0 < ?n" using ne by simp
  have cn: "unat (of_nat ?n :: uint32_t) = ?n" using n32 by (rule unat_of_nat32)
  have "?P \<le> ?P * ?n" using n by (cases imgs) simp_all
  then have "?P < 2 ^ 32" using size by linarith
  then have P: "unat (?w * ?h) = ?P" using unat_mult_lem [of ?w ?h] by simp
  have planes: "\<forall>plane\<in>set imgs. length (getData plane) = ?P"
  proof
    fix plane assume "plane \<in> set imgs"
    then have "well_formed plane" "getWidth plane = ?w" "getHeight plane = ?h"
      "getChannels plane = 1"
      using all by blast+
    then show "length (getData plane) = ?P" by (simp add: well_formed_def)
  qed
  have "\<forall>plane\<in>set imgs. getWidth plane = ?w \<and> getHeight plane = ?h \<and> getChannels plane = 1"
    using all by blast
  then have chk: "combine_check imgs ?w ?h = Inr ()"
    by (rule combine_check_ok)
  have len0: "length (getData ?new) = ?P * ?n"
    using cn by (simp add: LinearImage_new_def)
  from combine_loop_ok [OF n size planes len0, of 0] obtain R where R:
    "combine_loop imgs (?P * ?n) 0 0 (getData ?new) = Some (Inr R)"
    "length R = ?P * ?n"
    "\<forall>t<?P * ?n. R ! t = getData (imgs ! (t mod ?n)) ! (t div ?n)"
    by auto
  let ?result = "?new\<lparr>getData := R\<rparr>"
  have run: "combineChannels imgs = Some (Inr ?result)"
    using ne chk R(1) P by (simp add: combineChannels_def Let_def)
  have dims: "getWidth ?result = ?w" "getHeight ?result = ?h"
    "unat (getChannels ?result) = ?n"
    using cn by (simp_all add: LinearImage_new_def)
  have wfr: "well_formed ?result"
    using R(2) cn size by (simp add: well_formed_def LinearImage_new_def)
  have px: "getData ?result ! (p * ?n + k) = getData (imgs ! k) ! p"
    if p: "p < ?P" and k: "k < ?n" for p k
  proof -
    have "?n * p + ?n \<le> ?n * ?P" using p by (rule block_bound)
    then have t: "?n * p + k < ?P * ?n" using k by (simp add: mult.commute)
    have "R ! (?n * p + k) = getData (imgs ! ((?n * p + k) mod ?n)) ! ((?n * p + k) div ?n)"
      using R(3) t by blast
    then have "R ! (?n * p + k) = getData (imgs ! k) ! p"
      using block_div_mod [OF k, of p] by simp
    then show ?thesis by (simp add: mult.commute)
  qed
  show ?thesis
  proof (intro exI [of _ ?result] conjI allI impI)
    fix p k
    assume "p < ?P" "k < ?n"
    then show "getData ?result ! (p * ?n + k) = getData (imgs ! k) ! p" by (rule px)
  qed (fact run dims wfr)+
qed

lemma combineChannels_fails:
  assumes "imgs \<noteq> []"
    and "\<exists>plane\<in>set imgs. getWidth plane \<noteq> getWidth (imgs ! 0)
           \<or> getHeight plane \<noteq> getHeight (imgs ! 0) \<or> getChannels plane \<noteq> 1"
  shows "combineChannels imgs
           = Some (Inl (PreconditionPanic ''Planes must all have same width.''))
       \<or> combineChannels imgs
           = Some (Inl (PreconditionPanic ''Planes must all have same height.''))
       \<or> combineChannels imgs
           = Some (Inl (PreconditionPanic ''Planes must be single channel.''))"
  using assms(1) combine_check_fails [OF assms(2)]
  by (auto simp: combineChannels_def Let_def)

text \<open>
  C7, amended. For a sequence of one or more planes, fewer than \<open>2 ^ 32\<close> of
  them and with fewer than \<open>2 ^ 32\<close> samples together: if every plane has
  exactly one channel and the width and height of the first,
  \<open>combineChannels\<close> returns a buffer of that width and height with as many
  channels as there are planes, in which channel \<open>k\<close> of the pixel with
  flattened index \<open>p\<close> is the sample \<open>p\<close> of plane \<open>k\<close>. For every sequence of
  one or more planes: if some plane has another width or height than the
  first, or a channel count other than 1, the operation ends in a
  precondition failure and produces no buffer. The planes are buffers the
  constructor can make; the two bounds also make the \<^verbatim>\<open>while\<close> loop end.
\<close>

theorem combineChannels_planes:
  "(imgs \<noteq> []
      \<and> (\<forall>plane\<in>set imgs. well_formed plane \<and> getWidth plane = getWidth (imgs ! 0)
              \<and> getHeight plane = getHeight (imgs ! 0) \<and> getChannels plane = 1)
      \<and> length imgs < 2 ^ 32
      \<and> unat (getWidth (imgs ! 0)) * unat (getHeight (imgs ! 0)) * length imgs < 2 ^ 32
    \<longrightarrow> (\<exists>result. combineChannels imgs = Some (Inr result)
          \<and> getWidth result = getWidth (imgs ! 0) \<and> getHeight result = getHeight (imgs ! 0)
          \<and> unat (getChannels result) = length imgs
          \<and> (\<forall>p<unat (getWidth (imgs ! 0)) * unat (getHeight (imgs ! 0)). \<forall>k<length imgs.
                getData result ! (p * length imgs + k) = getData (imgs ! k) ! p)))
   \<and> (imgs \<noteq> []
      \<and> (\<exists>plane\<in>set imgs. getWidth plane \<noteq> getWidth (imgs ! 0)
              \<or> getHeight plane \<noteq> getHeight (imgs ! 0) \<or> getChannels plane \<noteq> 1)
    \<longrightarrow> combineChannels imgs
           = Some (Inl (PreconditionPanic ''Planes must all have same width.''))
       \<or> combineChannels imgs
           = Some (Inl (PreconditionPanic ''Planes must all have same height.''))
       \<or> combineChannels imgs
           = Some (Inl (PreconditionPanic ''Planes must be single channel.'')))"
proof (intro conjI impI)
  assume a: "imgs \<noteq> []
      \<and> (\<forall>plane\<in>set imgs. well_formed plane \<and> getWidth plane = getWidth (imgs ! 0)
              \<and> getHeight plane = getHeight (imgs ! 0) \<and> getChannels plane = 1)
      \<and> length imgs < 2 ^ 32
      \<and> unat (getWidth (imgs ! 0)) * unat (getHeight (imgs ! 0)) * length imgs < 2 ^ 32"
  then have "imgs \<noteq> []"
    "\<forall>plane\<in>set imgs. well_formed plane \<and> getWidth plane = getWidth (imgs ! 0)
              \<and> getHeight plane = getHeight (imgs ! 0) \<and> getChannels plane = 1"
    "length imgs < 2 ^ 32"
    "unat (getWidth (imgs ! 0)) * unat (getHeight (imgs ! 0)) * length imgs < 2 ^ 32"
    by blast+
  from combineChannels_spec [OF this] obtain result where
    "combineChannels imgs = Some (Inr result)"
    "getWidth result = getWidth (imgs ! 0)" "getHeight result = getHeight (imgs ! 0)"
    "unat (getChannels result) = length imgs"
    "\<forall>p<unat (getWidth (imgs ! 0)) * unat (getHeight (imgs ! 0)). \<forall>k<length imgs.
        getData result ! (p * length imgs + k) = getData (imgs ! k) ! p"
    by (elim exE conjE)
  then show "\<exists>result. combineChannels imgs = Some (Inr result)
          \<and> getWidth result = getWidth (imgs ! 0) \<and> getHeight result = getHeight (imgs ! 0)
          \<and> unat (getChannels result) = length imgs
          \<and> (\<forall>p<unat (getWidth (imgs ! 0)) * unat (getHeight (imgs ! 0)). \<forall>k<length imgs.
                getData result ! (p * length imgs + k) = getData (imgs ! k) ! p)"
    by (intro exI [of _ result] conjI)
next
  assume "imgs \<noteq> []
      \<and> (\<exists>plane\<in>set imgs. getWidth plane \<noteq> getWidth (imgs ! 0)
              \<or> getHeight plane \<noteq> getHeight (imgs ! 0) \<or> getChannels plane \<noteq> 1)"
  then have "imgs \<noteq> []"
    "\<exists>plane\<in>set imgs. getWidth plane \<noteq> getWidth (imgs ! 0)
              \<or> getHeight plane \<noteq> getHeight (imgs ! 0) \<or> getChannels plane \<noteq> 1"
    by blast+
  then show "combineChannels imgs
           = Some (Inl (PreconditionPanic ''Planes must all have same width.''))
       \<or> combineChannels imgs
           = Some (Inl (PreconditionPanic ''Planes must all have same height.''))
       \<or> combineChannels imgs
           = Some (Inl (PreconditionPanic ''Planes must be single channel.''))"
    by (rule combineChannels_fails)
qed

theorem combineChannels_planes_witness:
  "combineChannels [\<lparr>getWidth = 2, getHeight = 1, getChannels = 1, getData = [1, 0]\<rparr>,
                    \<lparr>getWidth = 2, getHeight = 1, getChannels = 1, getData = [0, 1]\<rparr>,
                    \<lparr>getWidth = 2, getHeight = 1, getChannels = 1, getData = [0, 0]\<rparr>]
     = Some (Inr \<lparr>getWidth = 2, getHeight = 1, getChannels = 3,
                   getData = [1, 0, 0, 0, 1, 0]\<rparr>)
   \<and> getData \<lparr>getWidth = 2, getHeight = 1, getChannels = 3,
                getData = [1, 0, 0, 0, 1, 0]\<rparr> ! (1 * 3 + 1)
       = getData \<lparr>getWidth = 2, getHeight = 1, getChannels = 1, getData = [0, 1]\<rparr> ! 1
   \<and> (combineChannels [\<lparr>getWidth = 2, getHeight = 1, getChannels = 1, getData = [1, 0]\<rparr>,
                       \<lparr>getWidth = 1, getHeight = 1, getChannels = 3, getData = [0, 1, 2]\<rparr>]
         = Some (Inl (PreconditionPanic ''Planes must all have same width.''))
      \<or> combineChannels [\<lparr>getWidth = 2, getHeight = 1, getChannels = 1, getData = [1, 0]\<rparr>,
                         \<lparr>getWidth = 1, getHeight = 1, getChannels = 3, getData = [0, 1, 2]\<rparr>]
         = Some (Inl (PreconditionPanic ''Planes must all have same height.''))
      \<or> combineChannels [\<lparr>getWidth = 2, getHeight = 1, getChannels = 1, getData = [1, 0]\<rparr>,
                         \<lparr>getWidth = 1, getHeight = 1, getChannels = 3, getData = [0, 1, 2]\<rparr>]
         = Some (Inl (PreconditionPanic ''Planes must be single channel.'')))"
proof -
  let ?r = "\<lparr>getWidth = 2, getHeight = 1, getChannels = 1, getData = [1, 0]\<rparr>"
  let ?g = "\<lparr>getWidth = 2, getHeight = 1, getChannels = 1, getData = [0, 1]\<rparr>"
  let ?b = "\<lparr>getWidth = 2, getHeight = 1, getChannels = 1, getData = [0, 0]\<rparr>"
  let ?bad = "\<lparr>getWidth = 1, getHeight = 1, getChannels = 3, getData = [0, 1, 2]\<rparr>"
  let ?out = "\<lparr>getWidth = 2, getHeight = 1, getChannels = 3,
                getData = [1, 0, 0, 0, 1, 0]\<rparr>"
  have wf: "well_formed ?r" "well_formed ?g" "well_formed ?b"
    by (simp_all add: well_formed_def)
  have run: "combineChannels [?r, ?g, ?b] = Some (Inr ?out)" by code_simp
  note good = combineChannels_planes [of "[?r, ?g, ?b]", THEN conjunct1]
  note bad = combineChannels_planes [of "[?r, ?bad]", THEN conjunct2]
  have "\<exists>result. combineChannels [?r, ?g, ?b] = Some (Inr result)
          \<and> getWidth result = getWidth ([?r, ?g, ?b] ! 0)
          \<and> getHeight result = getHeight ([?r, ?g, ?b] ! 0)
          \<and> unat (getChannels result) = length [?r, ?g, ?b]
          \<and> (\<forall>p<unat (getWidth ([?r, ?g, ?b] ! 0)) * unat (getHeight ([?r, ?g, ?b] ! 0)).
               \<forall>k<length [?r, ?g, ?b].
                getData result ! (p * length [?r, ?g, ?b] + k) = getData ([?r, ?g, ?b] ! k) ! p)"
    using wf by (intro good [rule_format]) simp_all
  then have px: "\<forall>p<unat (getWidth ([?r, ?g, ?b] ! 0)) * unat (getHeight ([?r, ?g, ?b] ! 0)).
               \<forall>k<length [?r, ?g, ?b].
                getData ?out ! (p * length [?r, ?g, ?b] + k) = getData ([?r, ?g, ?b] ! k) ! p"
    using run by auto
  have 1: "getData ?out ! (1 * 3 + 1) = getData ?g ! 1"
    using px [rule_format, of 1 1] by simp
  have 2: "combineChannels [?r, ?bad]
         = Some (Inl (PreconditionPanic ''Planes must all have same width.''))
      \<or> combineChannels [?r, ?bad]
         = Some (Inl (PreconditionPanic ''Planes must all have same height.''))
      \<or> combineChannels [?r, ?bad]
         = Some (Inl (PreconditionPanic ''Planes must be single channel.''))"
    by (intro bad [rule_format]) simp
  show ?thesis using run 1 2 by (intro conjI)
qed

text \<open>
  C7 as stated fails, in two ways. Two planes of \<open>2 ^ 31\<close> by 1 samples make
  the bound of the \<^verbatim>\<open>while\<close> loop \<open>2 ^ 32\<close>, which the \<^verbatim>\<open>uint32_t\<close>
  counter never reaches: the loop reads past the end of the planes. And the
  channel count of the result is the plane count cast to \<^verbatim>\<open>uint32_t\<close>:
  \<open>2 ^ 32\<close> empty planes are combined into a buffer of 0 channels.
\<close>

theorem combineChannels_overflow_counterexample:
  "well_formed \<lparr>getWidth = 2147483648, getHeight = 1, getChannels = 1,
                getData = replicate 2147483648 0\<rparr>
   \<and> combineChannels
        [\<lparr>getWidth = 2147483648, getHeight = 1, getChannels = 1, getData = replicate 2147483648 0\<rparr>,
         \<lparr>getWidth = 2147483648, getHeight = 1, getChannels = 1, getData = replicate 2147483648 0\<rparr>]
       = Some (Inl OutOfBounds)
   \<and> well_formed \<lparr>getWidth = 0, getHeight = 0, getChannels = 1, getData = []\<rparr>
   \<and> combineChannels
        (replicate 4294967296 \<lparr>getWidth = 0, getHeight = 0, getChannels = 1, getData = []\<rparr>)
       = Some (Inr \<lparr>getWidth = 0, getHeight = 0, getChannels = 0, getData = []\<rparr>)
   \<and> unat (getChannels \<lparr>getWidth = 0, getHeight = 0, getChannels = 0, getData = []\<rparr>)
       \<noteq> length (replicate 4294967296 \<lparr>getWidth = 0, getHeight = 0, getChannels = 1, getData = []\<rparr>)"
proof -
  let ?P = "\<lparr>getWidth = 2147483648, getHeight = 1, getChannels = 1,
              getData = replicate 2147483648 (0 :: float)\<rparr>"
  let ?Z = "\<lparr>getWidth = 0, getHeight = 0, getChannels = 1, getData = ([] :: float list)\<rparr>"
  let ?E = "\<lparr>getWidth = 0, getHeight = 0, getChannels = 0, getData = ([] :: float list)\<rparr>"
  have wf: "well_formed ?P"
    by (simp add: well_formed_def)
  have chk: "combine_check [?P, ?P] 2147483648 1 = Inr ()"
    by (rule combine_check_ok) simp
  have size: "(2147483648 :: nat) * length [?P, ?P] = 2 ^ 32" by simp
  have planes: "\<forall>plane\<in>set [?P, ?P]. length (getData plane) = 2147483648"
    by (simp)
  have len: "length (replicate (2147483648 * length [?P, ?P]) (0 :: float))
               = 2147483648 * length [?P, ?P]"
    by (simp only: length_replicate)
  have "combine_loop [?P, ?P] (2147483648 * length [?P, ?P]) (of_nat 0) (of_nat (0 * length [?P, ?P]))
          (replicate (2147483648 * length [?P, ?P]) 0) = Some (Inl OutOfBounds)"
    by (rule combine_loop_overflow [OF _ size _ planes len]) simp_all
  then have loop: "combine_loop [?P, ?P] 4294967296 0 0 (replicate 4294967296 0)
      = Some (Inl OutOfBounds)"
    by (simp)
  have run: "combineChannels [?P, ?P] = Some (Inl OutOfBounds)"
    using chk loop
    by (simp add: combineChannels_def LinearImage_new_def Let_def)
  have chk0: "combine_check (replicate 4294967296 ?Z) 0 0 = Inr ()"
    by (rule combine_check_ok) (simp)
  have loop0: "combine_loop (replicate 4294967296 ?Z) 0 0 0 [] = Some (Inr [])"
    by (subst combine_loop.simps) simp
  have wrap: "(of_nat (4294967296 :: nat) :: uint32_t) = 0" by simp
  have run0: "combineChannels (replicate 4294967296 ?Z) = Some (Inr ?E)"
    using chk0 loop0
    by (simp add: combineChannels_def LinearImage_new_def Let_def)
  have "unat (getChannels ?E) \<noteq> length (replicate 4294967296 ?Z)"
    by (simp only: length_replicate) simp
  moreover have "well_formed ?Z" by (simp add: well_formed_def)
  ultimately show ?thesis using wf run run0 by (intro conjI)
qed

subsection \<open>vectorsToColors\<close>










end
